(* ===== verification/KNF_Prelude.thy ===== *)
theory KNF_Prelude
  imports Complex_Main "HOL-Library.Signed_Division" "HOL-Library.Word"
begin

text \<open>
  Shared vocabulary of the knf development: the types that name the model's data
  (samples and feature vectors are modelled over \<open>real\<close>, the C \<open>int\<close> counters
  over \<open>int\<close>, C's truncating \<open>/\<close> as \<open>sdiv\<close>), the error values that stand for
  the source's \<open>assert\<close> failures, and generic lemmas on lists and integer
  division that the component theories share.
\<close>

type_synonym sample = real
type_synonym feature = "real list"

text \<open>
  Every \<open>assert\<close> of \<open>src/knf.c\<close> that can fail is a constructor here; an
  operation of the model returns \<open>Inl\<close> of the constructor where the C program
  aborts.  \<open>BadPointer\<close> is not an \<open>assert\<close>: it marks a load that would be
  undefined behaviour, so that its absence is a theorem (\<open>KNF_FrameHeap\<close>).
\<close>

datatype knf_error =
    RateMismatch        \<comment> \<open>\<open>knf_accept_waveform\<close>: \<open>assert(sample_rate == s->sample_rate)\<close>\<close>
  | OutOfRange          \<comment> \<open>\<open>frames_get\<close>: \<open>assert(root)\<close>\<close>
  | BadFeatureDim       \<comment> \<open>\<open>knf_create\<close>: \<open>assert(feature_dim == NB_MEL_BINS)\<close>\<close>
  | EmptyMelBin         \<comment> \<open>\<open>mel_init\<close>: \<open>assert(first_index != -1 && ...)\<close>\<close>
  | BadWaveform         \<comment> \<open>\<open>window_extract\<close>: \<open>assert(sample_offset >= 0 && wave_size != 0)\<close>\<close>
  | OffsetPastFrame     \<comment> \<open>\<open>window_extract\<close>: \<open>assert(sample_offset == 0 || ...)\<close>\<close>
  | FramesDecrease      \<comment> \<open>\<open>compute_features\<close>: \<open>assert(num_frames_new >= num_frames_old)\<close>\<close>
  | ReflectDiverges     \<comment> \<open>the reflection loop of \<open>window_extract\<close> does not return\<close>
  | AllocFailed         \<comment> \<open>\<open>frame_alloc\<close>: \<open>assert(frame)\<close> after \<open>malloc\<close> returned \<open>NULL\<close>\<close>
  | BadPointer          \<comment> \<open>a load through \<open>NULL\<close> or a freed frame (undefined behaviour in C)\<close>

named_theorems knf_simps "equations of the knf model that the simplifier may unfold"

subsection \<open>C integer division on non-negative operands\<close>

lemma sdiv_nonneg_eq_div [simp]:
  fixes a b :: int
  assumes "0 \<le> a" and "0 \<le> b"
  shows "a sdiv b = a div b"
  using assms by (auto simp: signed_divide_int_def sgn_if)

lemma sdiv_two_nonneg [simp]: "0 \<le> (a::int) \<Longrightarrow> 0 \<le> a sdiv 2"
  by simp

lemma sdiv_two_le: "0 \<le> (a::int) \<Longrightarrow> 2 * (a sdiv 2) \<le> a"
  by simp

lemma int_le_div_iff: "0 < (b::int) \<Longrightarrow> m \<le> a div b \<longleftrightarrow> b * m \<le> a"
proof -
  assume b: "0 < b"
  have "m \<le> a div b \<longleftrightarrow> m \<le> \<lfloor>real_of_int a / real_of_int b\<rfloor>"
    by (simp add: floor_divide_of_int_eq)
  also have "\<dots> \<longleftrightarrow> real_of_int m \<le> real_of_int a / real_of_int b"
    by (rule le_floor_iff)
  also have "\<dots> \<longleftrightarrow> real_of_int (b * m) \<le> real_of_int a"
    using b by (simp add: pos_le_divide_eq mult.commute)
  finally show ?thesis by linarith
qed

lemma int_div_less_iff: "0 < (b::int) \<Longrightarrow> a div b < m \<longleftrightarrow> a < b * m"
  using int_le_div_iff[of b m a] by linarith

subsection \<open>Lists\<close>

lemma map_upt_cong_int:
  "(\<And>k. lo \<le> k \<Longrightarrow> k < hi \<Longrightarrow> f k = g k) \<Longrightarrow>
   map f [lo..<hi] = map g [lo..<hi]"
  by (rule map_cong) auto

lemma upto_split_last:
  "(lo::int) \<le> hi \<Longrightarrow> [lo..hi] = [lo..hi - 1] @ [hi]"
  by (simp add: upto_rec2)

lemma drop_append_nat_le:
  "n \<le> length xs \<Longrightarrow> drop n (xs @ ys) = drop n xs @ ys"
  by simp

end
