(* ===== verification/KNF_Frames.thy ===== *)
theory KNF_Frames
  imports KNF_Prelude
begin

text \<open>
  The frame store of \<open>src/knf.c\<close> (lines 235--305): a singly linked chain of
  frames with the global index of its head (\<open>Frames\<close>).  The chain from
  \<open>root\<close> is modelled as the list of its frames; the \<open>last\<close> pointer only makes
  \<open>frames_push\<close> constant time.  \<open>KNF_FrameHeap\<close> models the chain, \<open>last\<close>,
  allocation and \<open>free\<close> on an explicit heap and proves that it refines this model.  Each loop of the
  source (counting, popping, walking to an index) is a recursive function.
  The lemmas give each loop's closed form, the behaviour of \<open>frames_get\<close> on
  every branch (including the evicted-index branch, where the code does not fail)
  and the facts that \<open>pop\<close> leaves the count and the retained frames alone.
\<close>

record 'f frames =
  root :: "'f list"
  base_index :: int

definition frames_init :: "'f frames" where
  "frames_init = \<lparr>root = [], base_index = 0\<rparr>"

text \<open>\<open>for (size = s->base_index; root; root = root->next, size++) ;\<close>\<close>

fun frames_count :: "int \<Rightarrow> 'f list \<Rightarrow> int" where
  "frames_count count [] = count"
| "frames_count count (_ # rest) = frames_count (count + 1) rest"

definition frames_size :: "'f frames \<Rightarrow> int" where
  "frames_size s = frames_count (base_index s) (root s)"

definition frames_push :: "'f frames \<Rightarrow> 'f \<Rightarrow> 'f frames" where
  "frames_push s frame = s\<lparr>root := root s @ [frame]\<rparr>"

text \<open>\<open>for (int i = 0; i < nframes && s->root; i++) { ...; s->base_index ++; }\<close>\<close>

function frames_pop_loop :: "int \<Rightarrow> int \<Rightarrow> 'f frames \<Rightarrow> 'f frames" where
  "frames_pop_loop i nframes s =
     (if i < nframes \<and> root s \<noteq> []
      then frames_pop_loop (i + 1) nframes
             (s\<lparr>root := tl (root s), base_index := base_index s + 1\<rparr>)
      else s)"
  by pat_completeness auto
termination
  by (relation "measure (\<lambda>(_, _, s). length (root s))") auto

declare frames_pop_loop.simps [simp del]

definition frames_pop :: "'f frames \<Rightarrow> int \<Rightarrow> 'f frames" where
  "frames_pop s nframes = frames_pop_loop 0 nframes s"

text \<open>\<open>for (int i = s->base_index; i < index && root; i++, root = root->next) ;\<close>\<close>

function frames_walk :: "int \<Rightarrow> int \<Rightarrow> 'f list \<Rightarrow> 'f list" where
  "frames_walk i index rt =
     (if i < index \<and> rt \<noteq> [] then frames_walk (i + 1) index (tl rt) else rt)"
  by pat_completeness auto
termination
  by (relation "measure (\<lambda>(_, _, rt). length rt)") auto

declare frames_walk.simps [simp del]

text \<open>\<open>assert(root); return root;\<close>: an empty remaining chain is the abort.\<close>

definition frames_get :: "'f frames \<Rightarrow> int \<Rightarrow> knf_error + 'f" where
  "frames_get s index =
     (case frames_walk (base_index s) index (root s) of
        [] \<Rightarrow> Inl OutOfRange
      | frame # _ \<Rightarrow> Inr frame)"


subsection \<open>Closed forms of the loops\<close>
lemma frames_count_eq: "frames_count n xs = n + int (length xs)"
  by (induction xs arbitrary: n) auto

lemma frames_size_eq: "frames_size s = base_index s + int (length (root s))"
  by (simp add: frames_size_def frames_count_eq)

lemma frames_pop_loop_closed:
  "frames_pop_loop i n s =
     (let d = min (length (root s)) (nat (n - i))
      in s\<lparr>root := drop d (root s), base_index := base_index s + int d\<rparr>)"
proof (induction i n s rule: frames_pop_loop.induct)
  case (1 i n s)
  show ?case
  proof (cases "i < n \<and> root s \<noteq> []")
    case True
    then have "frames_pop_loop i n s =
        frames_pop_loop (i + 1) n (s\<lparr>root := tl (root s), base_index := base_index s + 1\<rparr>)"
      by (simp add: frames_pop_loop.simps[of i n s])
    also have "\<dots> = (let d = min (length (root s) - 1) (nat (n - (i + 1)))
        in s\<lparr>root := drop d (tl (root s)), base_index := base_index s + 1 + int d\<rparr>)"
      using "1.IH"[OF True] by (simp add: Let_def)
    also have "\<dots> = (let d = min (length (root s)) (nat (n - i))
        in s\<lparr>root := drop d (root s), base_index := base_index s + int d\<rparr>)"
    proof -
      have "nat (n - (i + 1)) = nat (n - i) - 1" using True by simp
      then show ?thesis
        using True by (cases "root s") (auto simp: Let_def min_def drop_Cons' split: if_splits)
    qed
    finally show ?thesis .
  next
    case False
    then show ?thesis
      by (auto simp: frames_pop_loop.simps[of i n s] Let_def)
  qed
qed

lemma frames_walk_closed:
  "frames_walk i index rt = drop (nat (index - i)) rt"
proof (induction i index rt rule: frames_walk.induct)
  case (1 i index rt)
  show ?case
  proof (cases "i < index \<and> rt \<noteq> []")
    case True
    have step: "frames_walk i index rt = frames_walk (i + 1) index (tl rt)"
      using True by (simp add: frames_walk.simps[of i index rt])
    have "nat (index - (i + 1)) = nat (index - i) - 1" using True by simp
    then show ?thesis
      using "1.IH"[OF True] True step
      by (cases rt) (auto simp: drop_Cons')
  next
    case False
    then show ?thesis
      by (auto simp: frames_walk.simps[of i index rt])
  qed
qed

lemma frames_get_drop:
  "frames_get s index =
     (case drop (nat (index - base_index s)) (root s) of
        [] \<Rightarrow> Inl OutOfRange
      | frame # _ \<Rightarrow> Inr frame)"
  by (simp add: frames_get_def frames_walk_closed)

lemma frames_pop_eq:
  "frames_pop s n =
     s\<lparr>root := drop (min (length (root s)) (nat n)) (root s),
       base_index := base_index s + int (min (length (root s)) (nat n))\<rparr>"
  by (simp add: frames_pop_def frames_pop_loop_closed Let_def)

lemma frames_pop_root: "root (frames_pop f n) = drop (min (length (root f)) (nat n)) (root f)"
  and frames_pop_base: "base_index (frames_pop f n) = base_index f + int (min (length (root f)) (nat n))"
  by (simp_all add: frames_pop_eq)


lemma frames_get_pop:
  assumes "base_index (frames_pop f n) \<le> i"
  shows "frames_get (frames_pop f n) i = frames_get f i"
proof -
  let ?d = "min (length (root f)) (nat n)"
  have "nat (i - base_index (frames_pop f n)) + ?d = nat (i - base_index f)"
    using assms by (simp add: frames_pop_base)
  then show ?thesis by (simp add: frames_get_drop frames_pop_root frames_pop_base add.commute)
qed


lemma frames_get_append:
  assumes "base_index f \<le> i" "i < frames_size f"
  shows "frames_get (f\<lparr>root := root f @ fs\<rparr>) i = frames_get f i"
proof -
  have "nat (i - base_index f) < length (root f)" using assms by (auto simp: frames_size_eq)
  then show ?thesis by (simp add: frames_get_drop split: list.split)
qed


lemma frames_pop_size [simp]: "frames_size (frames_pop s n) = frames_size s"
  by (simp add: frames_pop_eq frames_size_eq)

lemma frames_push_size [simp]: "frames_size (frames_push s f) = frames_size s + 1"
  by (simp add: frames_push_def frames_size_eq)

lemma frames_push_base [simp]: "base_index (frames_push s f) = base_index s"
  by (simp add: frames_push_def)

lemma frames_push_root [simp]: "root (frames_push s f) = root s @ [f]"
  by (simp add: frames_push_def)

lemma frames_init_size [simp]: "frames_size frames_init = 0"
  and frames_init_base [simp]: "base_index frames_init = 0"
  and frames_init_root [simp]: "root frames_init = []"
  by (simp_all add: frames_init_def frames_size_eq)

lemma frames_get_valid:
  "base_index s \<le> index \<Longrightarrow> index < frames_size s \<Longrightarrow>
   frames_get s index = Inr (root s ! nat (index - base_index s))"
  by (simp add: frames_get_drop frames_size_eq Cons_nth_drop_Suc[symmetric])

subsection \<open>Properties\<close>

text \<open>
  C32. Looking a frame up by a global index between the head's index and the
  number of frames produced returns the frame stored at that position of the chain.
\<close>

theorem frames_get_in_range:
  assumes "base_index s \<le> index" and "index < frames_size s"
  shows "frames_get s index = Inr (root s ! nat (index - base_index s))"
  using assms by (rule frames_get_valid)

theorem frames_get_in_range_witness:
  "frames_get \<lparr>root = [10, 20, 30 :: int], base_index = 5\<rparr> 6 = Inr 20"
  using frames_get_in_range[of "\<lparr>root = [10, 20, 30 :: int], base_index = 5\<rparr>" 6]
  by (simp add: frames_size_eq)

text \<open>
  C33. Looking up an index that has not been produced yet (at or beyond the number
  of frames produced) fails with the out-of-range error (the C \<open>assert(root)\<close>).
\<close>

theorem frames_get_not_produced:
  assumes "frames_size s \<le> index"
  shows "frames_get s index = Inl OutOfRange"
  using assms by (simp add: frames_get_drop frames_size_eq)

theorem frames_get_not_produced_witness:
  "frames_get \<lparr>root = [10, 20, 30 :: int], base_index = 5\<rparr> 8 = Inl OutOfRange"
  using frames_get_not_produced[of "\<lparr>root = [10, 20, 30 :: int], base_index = 5\<rparr>" 8]
  by (simp add: frames_size_eq)

text \<open>
  C34. Looking up an evicted index (below the head's global index) does not fail
  while any frame is retained: the walk starts at the head and stops at once, so the
  head frame is returned in place of the evicted one.
\<close>

theorem frames_get_evicted:
  assumes "index < base_index s" and "root s \<noteq> []"
  shows "frames_get s index = Inr (hd (root s))"
  using assms by (cases "root s") (simp_all add: frames_get_drop)

theorem frames_get_evicted_witness:
  "frames_get \<lparr>root = [10, 20, 30 :: int], base_index = 5\<rparr> 2 = Inr 10"
  using frames_get_evicted[of 2 "\<lparr>root = [10, 20, 30 :: int], base_index = 5\<rparr>"]
  by simp

text \<open>
  C35. \<open>frames_pop s n\<close> evicts exactly \<open>min n (retained frames)\<close> frames from the
  head (none for a negative \<open>n\<close>), advances the head's global index by as many, and
  leaves the number of frames produced unchanged.
\<close>

theorem frames_pop_clamped:
  "frames_pop s n =
     s\<lparr>root := drop (min (length (root s)) (nat n)) (root s),
       base_index := base_index s + int (min (length (root s)) (nat n))\<rparr> \<and>
   frames_size (frames_pop s n) = frames_size s"
  by (simp add: frames_pop_eq frames_size_eq)

text \<open>
  C36. Pushing a frame and then looking up the index it was
  given (the number of frames produced before the push) returns that frame; every
  retained index returns what it returned before.
\<close>

theorem frames_push_get_roundtrip:
  "frames_get (frames_push s f) (frames_size s) = Inr f \<and>
   (\<forall>i. base_index s \<le> i \<and> i < frames_size s \<longrightarrow> frames_get (frames_push s f) i = frames_get s i)"
proof (intro conjI allI impI)
  show "frames_get (frames_push s f) (frames_size s) = Inr f"
    by (simp add: frames_get_drop frames_size_eq)
  fix i assume "base_index s \<le> i \<and> i < frames_size s"
  then show "frames_get (frames_push s f) i = frames_get s i"
    using frames_get_append[of s i "[f]"] by (simp add: frames_push_def)
qed

theorem frames_push_get_roundtrip_witness:
  "frames_get (frames_push \<lparr>root = [10, 20 :: int], base_index = 5\<rparr> 30) 7 = Inr 30 \<and>
   frames_get (frames_push \<lparr>root = [10, 20 :: int], base_index = 5\<rparr> 30) 6 = Inr 20"
  using frames_push_get_roundtrip[of "\<lparr>root = [10, 20 :: int], base_index = 5\<rparr>" 30]
  by (simp add: frames_size_eq frames_get_drop)

end
