(* ===== verification/KNF_Framing.thy ===== *)
theory KNF_Framing
  imports KNF_Prelude
begin

text \<open>
  The framing arithmetic of \<open>src/knf.c\<close> (lines 9--31): where frame \<open>index\<close>
  starts in the sample stream (\<open>calc_first_sample\<close>) and how many frames a
  stream of \<open>num_samples\<close> samples determines (\<open>calc_num_frames\<close>), with the
  decrementing \<open>while\<close> loop kept as a recursive function.  The lemmas give the
  loop's closed form, its equivalence with a reference count, and the
  monotonicity facts on which the streaming engine relies.
\<close>

definition calc_first_sample :: "int \<Rightarrow> int \<Rightarrow> int \<Rightarrow> int" where
  "calc_first_sample index window_shift window_size =
     (let midpoint_of_frame = window_shift * index + window_shift sdiv 2;
          beginning_of_frame = midpoint_of_frame - window_size sdiv 2
      in beginning_of_frame)"

text \<open>The loop \<open>while (num_frames > 0 && end_sample_of_last_frame > num_samples)\<close>.\<close>

function num_frames_loop :: "int \<Rightarrow> int \<Rightarrow> int \<Rightarrow> int \<Rightarrow> int" where
  "num_frames_loop num_samples window_shift num_frames end_sample_of_last_frame =
     (if num_frames > 0 \<and> end_sample_of_last_frame > num_samples
      then num_frames_loop num_samples window_shift (num_frames - 1)
             (end_sample_of_last_frame - window_shift)
      else num_frames)"
  by pat_completeness auto
termination
  by (relation "measure (\<lambda>(_, _, nf, _). nat nf)") auto

declare num_frames_loop.simps [simp del]

definition calc_num_frames :: "int \<Rightarrow> int \<Rightarrow> int \<Rightarrow> bool \<Rightarrow> int" where
  "calc_num_frames num_samples window_shift window_size flush =
     (let num_frames = (num_samples + window_shift sdiv 2) sdiv window_shift
      in if flush then num_frames
         else num_frames_loop num_samples window_shift num_frames
                (calc_first_sample (num_frames - 1) window_shift window_size + window_size))"

text \<open>
  Reference count, written from the intent of the loop: the frames whose centre
  lies in the stream, and, unless the stream is flushed, only those whose whole
  window \<open>[first, first + window_size)\<close> has been seen.  \<open>frame_end0\<close> is where
  the window of frame 0 ends.
\<close>

definition frame_end0 :: "int \<Rightarrow> int \<Rightarrow> int" where
  "frame_end0 window_shift window_size = window_shift div 2 - window_size div 2 + window_size"

definition calc_num_frames_ref :: "int \<Rightarrow> int \<Rightarrow> int \<Rightarrow> bool \<Rightarrow> int" where
  "calc_num_frames_ref num_samples window_shift window_size flush =
     (let n = (num_samples + window_shift div 2) div window_shift
      in if flush \<or> n \<le> 0 then n
         else max 0 (min n ((num_samples - frame_end0 window_shift window_size) div window_shift + 1)))"

subsection \<open>Closed forms\<close>
lemma calc_first_sample_eq:
  "0 \<le> sh \<Longrightarrow> 0 \<le> W \<Longrightarrow> calc_first_sample k sh W = sh * k + sh div 2 - W div 2"
  by (simp add: calc_first_sample_def)

lemma num_frames_loop_closed:
  "0 < sh \<Longrightarrow> e = sh * (nf - 1) + c \<Longrightarrow> num_frames_loop ns sh nf e =
     (if nf \<le> 0 then nf else max 0 (min nf ((ns - c) div sh + 1)))"
proof (induction ns sh nf e rule: num_frames_loop.induct)
  case (1 ns sh nf e)
  show ?case
  proof (cases "nf > 0 \<and> e > ns")
    case True
    have "ns - c < sh * (nf - 1)"
      using True "1.prems" by (simp add: algebra_simps)
    then have q: "(ns - c) div sh + 1 < nf"
      using "1.prems" int_div_less_iff[of sh "ns - c" "nf - 1"] by simp
    have "num_frames_loop ns sh nf e = num_frames_loop ns sh (nf - 1) (e - sh)"
      using True by (simp add: num_frames_loop.simps[of ns sh nf e])
    also have "\<dots> = (if nf - 1 \<le> 0 then nf - 1 else max 0 (min (nf - 1) ((ns - c) div sh + 1)))"
    proof -
      have "e - sh = sh * (nf - 1 - 1) + c"
        using "1.prems" by (simp add: algebra_simps)
      then show ?thesis using "1.IH"[OF True "1.prems"(1)] by simp
    qed
    finally show ?thesis using q True by auto
  next
    case False
    then have "num_frames_loop ns sh nf e = nf"
      by (subst num_frames_loop.simps) (simp only: if_False)
    moreover have "0 < nf \<Longrightarrow> nf \<le> (ns - c) div sh + 1"
      using False "1.prems" int_le_div_iff[of sh "nf - 1" "ns - c"] by (simp add: algebra_simps)
    ultimately show ?thesis by auto
  qed
qed

lemma calc_num_frames_closed:
  assumes "0 < sh" "0 \<le> W" "0 \<le> ns"
  shows "calc_num_frames ns sh W fl =
    (let n = (ns + sh div 2) div sh
     in if fl \<or> n \<le> 0 then n
        else max 0 (min n ((ns - frame_end0 sh W) div sh + 1)))"
proof -
  let ?n = "(ns + sh div 2) div sh"
  have e: "calc_first_sample (?n - 1) sh W + W = sh * (?n - 1) + frame_end0 sh W"
    using assms by (simp add: calc_first_sample_eq frame_end0_def)
  show ?thesis
    using assms num_frames_loop_closed[OF assms(1) e, of ns]
    by (simp add: calc_num_frames_def Let_def)
qed

lemma calc_num_frames_flush:
  "0 < sh \<Longrightarrow> 0 \<le> ns \<Longrightarrow> calc_num_frames ns sh W True = (ns + sh div 2) div sh"
  by (simp add: calc_num_frames_def)

lemma calc_num_frames_nonneg:
  "0 < sh \<Longrightarrow> 0 \<le> W \<Longrightarrow> 0 \<le> ns \<Longrightarrow> 0 \<le> calc_num_frames ns sh W fl"
  by (simp add: calc_num_frames_closed Let_def pos_imp_zdiv_nonneg_iff)

lemma calc_num_frames_le_flush:
  "0 < sh \<Longrightarrow> 0 \<le> W \<Longrightarrow> 0 \<le> ns \<Longrightarrow>
   calc_num_frames ns sh W False \<le> calc_num_frames ns sh W True"
  by (simp add: calc_num_frames_closed Let_def)

lemma calc_num_frames_mono:
  assumes "0 < sh" "0 \<le> W" "0 \<le> ns" "ns \<le> ns'"
  shows "calc_num_frames ns sh W fl \<le> calc_num_frames ns' sh W fl"
proof -
  have n: "(ns + sh div 2) div sh \<le> (ns' + sh div 2) div sh"
    using assms by (simp add: zdiv_mono1)
  have f: "(ns - frame_end0 sh W) div sh \<le> (ns' - frame_end0 sh W) div sh"
    using assms by (simp add: zdiv_mono1)
  show ?thesis
    using assms n f by (auto simp: calc_num_frames_closed Let_def)
qed

lemma calc_first_sample_mono:
  "0 \<le> sh \<Longrightarrow> 0 \<le> W \<Longrightarrow> k \<le> k' \<Longrightarrow> calc_first_sample k sh W \<le> calc_first_sample k' sh W"
  by (simp add: calc_first_sample_eq mult_left_mono)

lemma calc_first_sample_succ:
  "0 \<le> sh \<Longrightarrow> 0 \<le> W \<Longrightarrow> calc_first_sample (k + 1) sh W = calc_first_sample k sh W + sh"
  by (simp add: calc_first_sample_eq algebra_simps)

text \<open>Every frame counted without flushing has its whole window inside the stream.\<close>

lemma calc_num_frames_fits:
  assumes "0 < sh" "0 \<le> W" "0 \<le> ns" "k < calc_num_frames ns sh W False" "0 \<le> k"
  shows "calc_first_sample k sh W + W \<le> ns"
proof -
  have "k \<le> (ns - frame_end0 sh W) div sh"
    using assms by (auto simp: calc_num_frames_closed Let_def split: if_splits)
  then have "sh * k \<le> ns - frame_end0 sh W"
    using assms(1) by (simp add: int_le_div_iff)
  then show ?thesis
    using assms by (simp add: calc_first_sample_eq frame_end0_def)
qed

text \<open>Every counted frame has its centre at most half a shift past the end of the stream.\<close>

lemma calc_num_frames_centre:
  assumes "0 < sh" "0 \<le> W" "0 \<le> ns" "k < calc_num_frames ns sh W fl"
  shows "sh * (k + 1) \<le> ns + sh div 2"
proof -
  have "k < (ns + sh div 2) div sh"
    using assms calc_num_frames_le_flush[of sh W ns]
    by (cases fl) (auto simp: calc_num_frames_flush)
  then have "k + 1 \<le> (ns + sh div 2) div sh" by simp
  then show ?thesis using assms(1) by (simp add: int_le_div_iff)
qed

text \<open>Without flushing, the frame after the last counted one does not fit (or every centred frame is counted).\<close>

lemma calc_num_frames_maximal:
  assumes "0 < sh" "0 \<le> W" "0 \<le> ns" "r = calc_num_frames ns sh W False"
    "r < calc_num_frames ns sh W True"
  shows "ns < calc_first_sample r sh W + W"
proof -
  have "r = max 0 ((ns - frame_end0 sh W) div sh + 1)"
    using assms by (auto simp: calc_num_frames_closed Let_def split: if_splits)
  then have "(ns - frame_end0 sh W) div sh < r" by simp
  then have "ns - frame_end0 sh W < sh * r"
    using assms(1) by (simp add: int_div_less_iff)
  then show ?thesis
    using assms by (simp add: calc_first_sample_eq frame_end0_def)
qed

subsection \<open>Properties\<close>

lemma calc_first_sample_lower:
  "0 \<le> k \<Longrightarrow> 0 < sh \<Longrightarrow> 0 \<le> W \<Longrightarrow> - (W div 2) \<le> calc_first_sample k sh W"
  by (simp add: calc_first_sample_eq pos_imp_zdiv_nonneg_iff)

lemma calc_first_sample_counted:
  assumes "0 < sh" "0 \<le> W" "0 \<le> ns" "k < calc_num_frames ns sh W fl"
  shows "calc_first_sample k sh W \<le> ns - W div 2"
proof -
  have "sh * (k + 1) \<le> ns + sh div 2" using calc_num_frames_centre[OF assms] .
  moreover have "2 * (sh div 2) \<le> sh" by simp
  ultimately show ?thesis using assms(1,2) by (simp add: calc_first_sample_eq algebra_simps)
qed

lemma calc_first_sample_next:
  assumes "0 < sh" "0 \<le> W" "0 \<le> ns" "0 < calc_num_frames ns sh W False"
  shows "calc_first_sample (calc_num_frames ns sh W False) sh W \<le> ns - W + sh"
proof -
  let ?n = "calc_num_frames ns sh W False"
  have "calc_first_sample (?n - 1) sh W + W \<le> ns"
    using assms by (intro calc_num_frames_fits) auto
  moreover have "calc_first_sample (?n - 1 + 1) sh W = calc_first_sample (?n - 1) sh W + sh"
    using assms by (intro calc_first_sample_succ) auto
  ultimately show ?thesis by simp
qed


lemma calc_num_frames_le_centre:
  assumes "0 < sh" "0 \<le> W" "0 \<le> ns"
  shows "sh * calc_num_frames ns sh W fl \<le> ns + sh div 2"
proof -
  have "calc_num_frames ns sh W fl \<le> (ns + sh div 2) div sh"
    using assms by (auto simp: calc_num_frames_closed Let_def)
  then have "sh * calc_num_frames ns sh W fl \<le> sh * ((ns + sh div 2) div sh)"
    using assms(1) by simp
  also have "\<dots> \<le> ns + sh div 2"
  proof -
    have "sh * ((ns + sh div 2) div sh) = ns + sh div 2 - (ns + sh div 2) mod sh"
      by (simp add: minus_mod_eq_mult_div)
    moreover have "0 \<le> (ns + sh div 2) mod sh" using assms(1) by simp
    ultimately show ?thesis by linarith
  qed
  finally show ?thesis .
qed


text \<open>
  C24. The decrementing loop of \<open>calc_num_frames\<close> computes the reference count: the
  number of frames whose centre lies in the stream, cut down (when not flushing) to
  the frames whose whole window has been seen.
\<close>

theorem calc_num_frames_eq_ref:
  assumes "0 < window_shift" "0 \<le> window_size" "0 \<le> num_samples"
  shows "calc_num_frames num_samples window_shift window_size flush =
         calc_num_frames_ref num_samples window_shift window_size flush"
  using calc_num_frames_closed[OF assms] by (simp add: calc_num_frames_ref_def)

theorem calc_num_frames_eq_ref_witness:
  "calc_num_frames 16000 160 400 False = calc_num_frames_ref 16000 160 400 False \<and>
   calc_num_frames 16000 160 400 False = 99"
  using calc_num_frames_eq_ref[of 160 400 16000 False]
  by (simp add: calc_num_frames_ref_def frame_end0_def)

text \<open>
  C25. Without flushing, every counted frame has its whole
  window inside the samples seen, and the first frame the flush adds does not: the
  decrement loop stops exactly at the last frame that fits.
\<close>

theorem calc_num_frames_window_fits:
  assumes "0 < sh" "0 \<le> W" "0 \<le> ns"
  shows "(\<forall>k. 0 \<le> k \<and> k < calc_num_frames ns sh W False \<longrightarrow> calc_first_sample k sh W + W \<le> ns) \<and>
    (calc_num_frames ns sh W False < calc_num_frames ns sh W True \<longrightarrow>
       ns < calc_first_sample (calc_num_frames ns sh W False) sh W + W)"
  using calc_num_frames_fits[OF assms] calc_num_frames_maximal[OF assms refl] by blast

theorem calc_num_frames_window_fits_witness:
  "calc_first_sample 98 160 400 + 400 \<le> 16000 \<and> 16000 < calc_first_sample 99 160 400 + 400"
proof -
  have n: "calc_num_frames 16000 160 400 False = 99" "calc_num_frames 16000 160 400 True = 100"
    by (simp_all add: calc_num_frames_closed Let_def frame_end0_def)
  show ?thesis using calc_num_frames_window_fits[of 160 400 16000] n by simp
qed

text \<open>
  C26. The unbounded integers of the model agree with the
  source's 32-bit \<open>int\<close> arithmetic while the stream leaves room for two windows below
  \<open>INT_MAX\<close>: the rounding sum of \<open>calc_num_frames\<close>, and for every frame index up to the
  count the product \<open>window_shift * index\<close>, the first sample and the window end (also
  after subtracting an offset) all lie within \<open>int\<close>.
\<close>

theorem calc_num_frames_int_range:
  assumes "0 < sh" "2 * sh \<le> W" "0 \<le> ns" "ns + 2 * W \<le> 2 ^ 31 - 1"
  shows "ns + sh div 2 \<le> 2 ^ 31 - 1 \<and>
    (\<forall>k. 0 \<le> k \<and> k \<le> calc_num_frames ns sh W fl \<longrightarrow>
       sh * k \<le> 2 ^ 31 - 1 \<and> - (2 ^ 31) \<le> calc_first_sample k sh W \<and>
       calc_first_sample k sh W + 2 * W \<le> 2 ^ 31 - 1)"
proof (intro conjI allI impI)
  have h: "sh div 2 \<le> W div 2" "sh \<le> W div 2" using assms(1,2) by linarith+
  show "ns + sh div 2 \<le> 2 ^ 31 - 1" using assms h by linarith
  fix k assume k: "0 \<le> k \<and> k \<le> calc_num_frames ns sh W fl"
  have "sh * k \<le> sh * calc_num_frames ns sh W fl" using k assms(1) by simp
  also have "\<dots> \<le> ns + sh div 2" using assms by (intro calc_num_frames_le_centre) auto
  finally have sk: "sh * k \<le> ns + sh div 2" .
  have "0 \<le> sh * k" using k assms(1) by simp
  moreover have e: "calc_first_sample k sh W = sh * k + sh div 2 - W div 2"
    using assms by (simp add: calc_first_sample_eq)
  ultimately show "sh * k \<le> 2 ^ 31 - 1" "- (2 ^ 31) \<le> calc_first_sample k sh W"
      "calc_first_sample k sh W + 2 * W \<le> 2 ^ 31 - 1"
    using sk h assms by linarith+
qed

theorem calc_num_frames_int_range_witness:
  "16000 + 160 div 2 \<le> (2 ^ 31 - 1 :: int) \<and> calc_first_sample 100 160 400 + 2 * 400 \<le> 2 ^ 31 - 1"
proof -
  have "calc_num_frames 16000 160 400 True = 100" by (simp add: calc_num_frames_flush)
  then show ?thesis using calc_num_frames_int_range[of 160 400 16000 True] by simp
qed

end
