(* ===== verification/KNF_Window.thy ===== *)
theory KNF_Window
  imports KNF_Framing
begin

text \<open>
  The analysis window of \<open>src/knf.c\<close> (lines 39--102): the precomputed weights
  (\<open>window_init\<close>), DC removal, pre-emphasis, and \<open>window_extract\<close>, which copies
  one frame's samples out of the remainder buffer, mirroring indices that fall
  outside it.  Samples and weights are modelled over \<open>real\<close> (the source uses
  \<open>float\<close>, \<open>0.97f\<close> and the double \<open>M_2PI\<close>); the index arithmetic is exact.
  The mirroring loop \<open>while (j < 0 || j >= wave_size)\<close> may not return, so it is
  a \<open>partial_function (option)\<close>; the lemmas show that it returns an index of the
  buffer whenever the buffer is non-empty and never returns on an empty one, and
  how it behaves when the buffer is a suffix of a longer stream.
\<close>

definition window_init :: "int \<Rightarrow> real list" where
  "window_init window_size =
     (let a = 2 * pi / real_of_int (window_size - 1)
      in map (\<lambda>i. (0.5 - 0.5 * cos (a * real i)) powr 0.85) [0..<nat window_size])"

text \<open>\<open>for (int i = 0; i < n; i++) sum += waveform[i];\<close>\<close>

fun dc_sum :: "real \<Rightarrow> real list \<Rightarrow> real" where
  "dc_sum acc [] = acc"
| "dc_sum acc (x # xs) = dc_sum (acc + x) xs"

definition remove_dc_offset :: "real list \<Rightarrow> real list" where
  "remove_dc_offset waveform =
     (let sum = dc_sum 0 waveform;
          mean = sum / real (length waveform)
      in map (\<lambda>x. x - mean) waveform)"

text \<open>\<open>for (int i = n - 1; i > 0; i--) waveform[i] -= preemph_coeff * waveform[i - 1];\<close>\<close>

fun preemph_loop :: "real \<Rightarrow> nat \<Rightarrow> real list \<Rightarrow> real list" where
  "preemph_loop c 0 w = w"
| "preemph_loop c (Suc i) w = preemph_loop c i (w[Suc i := w ! Suc i - c * w ! i])"

definition preemphasize :: "real list \<Rightarrow> real \<Rightarrow> real list" where
  "preemphasize waveform preemph_coeff =
     (let w = preemph_loop preemph_coeff (length waveform - 1) waveform
      in w[0 := w ! 0 - preemph_coeff * w ! 0])"

text \<open>\<open>while (j < 0 || j >= wave_size) j = (j < 0 ? 0 : 2 * wave_size) - j - 1;\<close>\<close>

partial_function (option) reflect_index :: "int \<Rightarrow> int \<Rightarrow> int option" where
  "reflect_index wave_size j =
     (if j < 0 \<or> j \<ge> wave_size
      then reflect_index wave_size ((if j < 0 then 0 else 2 * wave_size) - j - 1)
      else Some j)"

declare reflect_index.simps [code]

text \<open>How far an index lies outside \<open>[0, wave_size)\<close>: the measure of the mirroring loop.\<close>

definition reflect_excess :: "int \<Rightarrow> int \<Rightarrow> nat" where
  "reflect_excess ws j = nat (if j < 0 then - j else j - ws + 1)"


text \<open>The general branch: \<open>for (i = 0; i < window_size; i++) window[i] = wave[reflect(wave_start + i)]\<close>.\<close>

definition gather_reflect :: "real list \<Rightarrow> int \<Rightarrow> int \<Rightarrow> int \<Rightarrow> real list option" where
  "gather_reflect wave wave_size wave_start window_size =
     those (map (\<lambda>i. map_option (\<lambda>j. wave ! nat j) (reflect_index wave_size (wave_start + int i)))
                [0..<nat window_size])"

text \<open>The copy of the samples: \<open>memcpy\<close> when the window lies inside the buffer.\<close>

definition extract_samples :: "real list \<Rightarrow> int \<Rightarrow> int \<Rightarrow> int \<Rightarrow> real list option" where
  "extract_samples wave wave_size wave_start window_size =
     (let wave_end = wave_start + window_size
      in if wave_start \<ge> 0 \<and> wave_end \<le> wave_size
         then Some (take (nat window_size) (drop (nat wave_start) wave))
         else gather_reflect wave wave_size wave_start window_size)"

text \<open>DC removal, pre-emphasis with \<open>0.97f\<close>, and the weights, in the source's order.\<close>

definition window_process :: "real list \<Rightarrow> real list \<Rightarrow> real list" where
  "window_process scale window =
     map2 (*) (preemphasize (remove_dc_offset window) 0.97) scale"

definition window_extract ::
  "real list \<Rightarrow> int \<Rightarrow> real list \<Rightarrow> int \<Rightarrow> int \<Rightarrow> int \<Rightarrow> int \<Rightarrow> knf_error + real list" where
  "window_extract scale sample_offset wave wave_size index window_shift window_size =
     (if \<not> (sample_offset \<ge> 0 \<and> wave_size \<noteq> 0) then Inl BadWaveform
      else
        let start_sample = calc_first_sample index window_shift window_size
        in if \<not> (sample_offset = 0 \<or> start_sample \<ge> sample_offset) then Inl OffsetPastFrame
           else case extract_samples wave wave_size (start_sample - sample_offset) window_size of
                  None \<Rightarrow> Inl ReflectDiverges
                | Some window \<Rightarrow> Inr (window_process scale window))"


subsection \<open>The mirroring loop\<close>

lemma reflect_index_returns_nonempty:
  assumes "reflect_index wave_size j = Some r"
  shows "wave_size \<noteq> 0"
proof (rule reflect_index.raw_induct[where P = "\<lambda>ws j r. ws \<noteq> 0", OF _ assms])
  fix f :: "int \<Rightarrow> int \<Rightarrow> int option" and ws j r
  assume IH: "\<And>ws j r. f ws j = Some r \<Longrightarrow> ws \<noteq> 0"
    and eq: "(if j < 0 \<or> ws \<le> j then f ws ((if j < 0 then 0 else 2 * ws) - j - 1) else Some j) = Some r"
  show "ws \<noteq> 0"
  proof
    assume "ws = 0"
    then have "j < 0 \<or> ws \<le> j" by linarith
    then have "f ws ((if j < 0 then 0 else 2 * ws) - j - 1) = Some r"
      using eq by (simp only: if_True)
    then show False using IH \<open>ws = 0\<close> by blast
  qed
qed

lemma reflect_index_zero: "reflect_index 0 j = None"
  using reflect_index_returns_nonempty by (cases "reflect_index 0 j") auto

lemma reflect_index_in_range: "0 \<le> j \<Longrightarrow> j < ws \<Longrightarrow> reflect_index ws j = Some j"
  by (subst reflect_index.simps) simp

lemma reflect_index_total:
  assumes "0 < ws"
  shows "\<exists>r. reflect_index ws j = Some r \<and> 0 \<le> r \<and> r < ws"
proof (induction "reflect_excess ws j" arbitrary: j rule: less_induct)
  case less
  show ?case
  proof (cases "j < 0 \<or> ws \<le> j")
    case True
    let ?j' = "(if j < 0 then 0 else 2 * ws) - j - 1"
    have "reflect_excess ws ?j' < reflect_excess ws j"
      using True assms by (auto simp: reflect_excess_def)
    then obtain r where "reflect_index ws ?j' = Some r \<and> 0 \<le> r \<and> r < ws"
      using less by blast
    moreover have "reflect_index ws j = reflect_index ws ?j'"
      using True by (subst reflect_index.simps) simp
    ultimately show ?thesis by auto
  next
    case False
    then show ?thesis by (simp add: reflect_index_in_range)
  qed
qed

lemma reflect_index_once:
  "0 \<le> (if j < 0 then 0 else 2 * ws) - j - 1 \<Longrightarrow> (if j < 0 then 0 else 2 * ws) - j - 1 < ws \<Longrightarrow>
   j < 0 \<or> ws \<le> j \<Longrightarrow> reflect_index ws j = Some ((if j < 0 then 0 else 2 * ws) - j - 1)"
  by (subst reflect_index.simps) (simp add: reflect_index_in_range)

lemma reflect_index_shift:
  assumes "0 \<le> off" "0 \<le> j" "j < 2 * ws"
  shows "reflect_index (ws + off) (j + off) = map_option (\<lambda>r. r + off) (reflect_index ws j)"
proof (cases "j < ws")
  case True
  then show ?thesis using assms by (simp add: reflect_index_in_range)
next
  case False
  then have "reflect_index ws j = Some (2 * ws - j - 1)"
    using assms by (subst reflect_index_once) auto
  moreover have "reflect_index (ws + off) (j + off) = Some (2 * ws - j - 1 + off)"
    using assms False by (subst reflect_index_once) (auto simp: algebra_simps)
  ultimately show ?thesis by simp
qed

lemma reflect_index_extend:
  assumes "- n \<le> j" "j < n" "n \<le> n'"
  shows "reflect_index n' j = reflect_index n j"
proof (cases "j < 0")
  case True
  then have "reflect_index n j = Some (- j - 1)" and "reflect_index n' j = Some (- j - 1)"
    using assms by (subst reflect_index_once; auto)+
  then show ?thesis by simp
next
  case False
  then show ?thesis using assms by (simp add: reflect_index_in_range)
qed


subsection \<open>DC removal and pre-emphasis\<close>

lemma dc_sum_eq: "dc_sum acc xs = acc + sum_list xs"
  by (induction xs arbitrary: acc) (auto simp: algebra_simps)

lemma remove_dc_offset_length [simp]: "length (remove_dc_offset w) = length w"
  by (simp add: remove_dc_offset_def Let_def)

lemma remove_dc_offset_sum:
  "w \<noteq> [] \<Longrightarrow> sum_list (remove_dc_offset w) = 0"
  by (simp add: remove_dc_offset_def dc_sum_eq sum_list_subtractf sum_list_triv)

lemma preemph_loop_length [simp]: "length (preemph_loop c i w) = length w"
  by (induction i arbitrary: w) auto

lemma preemph_loop_nth:
  "i < length w \<Longrightarrow> k < length w \<Longrightarrow>
   preemph_loop c i w ! k = (if 1 \<le> k \<and> k \<le> i then w ! k - c * w ! (k - 1) else w ! k)"
proof (induction i arbitrary: w)
  case 0
  then show ?case by simp
next
  case (Suc i)
  let ?w' = "w[Suc i := w ! Suc i - c * w ! i]"
  have "preemph_loop c (Suc i) w ! k = preemph_loop c i ?w' ! k" by simp
  also have "\<dots> = (if 1 \<le> k \<and> k \<le> i then ?w' ! k - c * ?w' ! (k - 1) else ?w' ! k)"
    using Suc by simp
  also have "\<dots> = (if 1 \<le> k \<and> k \<le> Suc i then w ! k - c * w ! (k - 1) else w ! k)"
    using Suc.prems by (auto simp: nth_list_update)
  finally show ?case .
qed

lemma preemphasize_length [simp]: "length (preemphasize w c) = length w"
  by (simp add: preemphasize_def Let_def)

lemma preemphasize_nth:
  "k < length w \<Longrightarrow>
   preemphasize w c ! k = (if k = 0 then w ! 0 - c * w ! 0 else w ! k - c * w ! (k - 1))"
  by (auto simp: preemphasize_def Let_def nth_list_update preemph_loop_nth)

subsection \<open>Copying the samples\<close>

lemma those_map_Some: "those (map (\<lambda>x. Some (f x)) xs) = Some (map f xs)"
  by (induction xs) auto

lemma take_drop_as_map:
  "n + k \<le> length xs \<Longrightarrow> take n (drop k xs) = map (\<lambda>i. xs ! (k + i)) [0..<n]"
  by (rule nth_equalityI) auto

lemma gather_reflect_in_range:
  assumes "0 \<le> st" "st + W \<le> ws"
  shows "gather_reflect wave ws st W = Some (map (\<lambda>i. wave ! (nat st + i)) [0..<nat W])"
proof -
  have "map (\<lambda>i. map_option (\<lambda>j. wave ! nat j) (reflect_index ws (st + int i))) [0..<nat W] =
        map (\<lambda>i. Some (wave ! (nat st + i))) [0..<nat W]"
  proof (rule map_cong[OF refl])
    fix i assume "i \<in> set [0..<nat W]"
    then have "reflect_index ws (st + int i) = Some (st + int i)"
      using assms by (intro reflect_index_in_range) auto
    then show "map_option (\<lambda>j. wave ! nat j) (reflect_index ws (st + int i)) = Some (wave ! (nat st + i))"
      using assms by (simp add: nat_add_distrib)
  qed
  then show ?thesis unfolding gather_reflect_def by (simp only: those_map_Some)
qed

lemma extract_samples_eq_gather:
  assumes "int (length wave) = wave_size"
  shows "extract_samples wave wave_size wave_start window_size =
         gather_reflect wave wave_size wave_start window_size"
proof (cases "wave_start \<ge> 0 \<and> wave_start + window_size \<le> wave_size")
  case True
  show ?thesis
  proof (cases "0 \<le> window_size")
    case w: True
    have "take (nat window_size) (drop (nat wave_start) wave) =
          map (\<lambda>i. wave ! (nat wave_start + i)) [0..<nat window_size]"
      using True w assms by (intro take_drop_as_map) linarith
    then show ?thesis
      using True by (simp add: extract_samples_def Let_def gather_reflect_in_range)
  next
    case False
    then show ?thesis by (simp add: extract_samples_def Let_def gather_reflect_def)
  qed
next
  case False
  then show ?thesis by (auto simp: extract_samples_def Let_def)
qed
lemma gather_reflect_eq:
  assumes "0 < ws"
  shows "gather_reflect wave ws st W =
         Some (map (\<lambda>i. wave ! nat (the (reflect_index ws (st + int i)))) [0..<nat W])"
proof -
  have "map (\<lambda>i. map_option (\<lambda>j. wave ! nat j) (reflect_index ws (st + int i))) [0..<nat W] =
        map (\<lambda>i. Some (wave ! nat (the (reflect_index ws (st + int i))))) [0..<nat W]"
  proof (rule map_cong[OF refl])
    fix i
    obtain r where "reflect_index ws (st + int i) = Some r"
      using reflect_index_total[OF assms] by blast
    then show "map_option (\<lambda>j. wave ! nat j) (reflect_index ws (st + int i)) =
               Some (wave ! nat (the (reflect_index ws (st + int i))))" by simp
  qed
  then show ?thesis unfolding gather_reflect_def by (simp only: those_map_Some)
qed

text \<open>A buffer that is the suffix of a stream from \<open>off\<close> on reads what the stream reads.\<close>

lemma gather_reflect_suffix:
  assumes "0 \<le> off" "int (length xs) = ws + off" "0 < ws"
    and idx: "off = 0 \<or> (0 \<le> st \<and> st + W \<le> 2 * ws)"
  shows "gather_reflect (drop (nat off) xs) ws st W = gather_reflect xs (ws + off) (st + off) W"
proof (cases "off = 0")
  case True
  then show ?thesis by simp
next
  case False
  with idx have st: "0 \<le> st" "st + W \<le> 2 * ws" by auto
  have "0 < ws + off" using assms by simp
  have "\<And>i. i < nat W \<Longrightarrow>
      drop (nat off) xs ! nat (the (reflect_index ws (st + int i))) =
      xs ! nat (the (reflect_index (ws + off) (st + off + int i)))"
  proof -
    fix i assume i: "i < nat W"
    obtain r where r: "reflect_index ws (st + int i) = Some r" "0 \<le> r" "r < ws"
      using reflect_index_total[OF assms(3)] by blast
    have "reflect_index (ws + off) (st + int i + off) = Some (r + off)"
      using reflect_index_shift[OF assms(1), of "st + int i" ws] r st i by simp
    then show "drop (nat off) xs ! nat (the (reflect_index ws (st + int i))) =
      xs ! nat (the (reflect_index (ws + off) (st + off + int i)))"
      using r assms by (simp add: algebra_simps nat_add_distrib)
  qed
  then show ?thesis
    using assms \<open>0 < ws + off\<close> by (simp add: gather_reflect_eq)
qed

lemma gather_reflect_extend:
  assumes "0 < n" "n \<le> n'" "- n \<le> st" "st + W \<le> n" "int (length xs) = n"
  shows "gather_reflect (xs @ ys) n' st W = gather_reflect xs n st W"
proof -
  have "0 < n'" using assms by simp
  have "\<And>i. i < nat W \<Longrightarrow>
      (xs @ ys) ! nat (the (reflect_index n' (st + int i))) = xs ! nat (the (reflect_index n (st + int i)))"
  proof -
    fix i assume i: "i < nat W"
    have eq: "reflect_index n' (st + int i) = reflect_index n (st + int i)"
      using i assms by (intro reflect_index_extend) auto
    obtain r where r: "reflect_index n (st + int i) = Some r" "0 \<le> r" "r < n"
      using reflect_index_total[OF assms(1)] by blast
    moreover have "nat r < length xs" using r assms by linarith
    ultimately show "(xs @ ys) ! nat (the (reflect_index n' (st + int i))) = xs ! nat (the (reflect_index n (st + int i)))"
      using eq by (simp add: nth_append)
  qed
  then show ?thesis using assms \<open>0 < n'\<close> by (simp add: gather_reflect_eq)
qed

lemma window_init_length [simp]: "length (window_init W) = nat W"
  by (simp add: window_init_def Let_def)

lemma window_init_nth:
  "i < nat W \<Longrightarrow> window_init W ! i = (0.5 - 0.5 * cos (2 * pi / real_of_int (W - 1) * real i)) powr 0.85"
  by (simp add: window_init_def Let_def)

lemma hann_powr_bounds:
  "0 \<le> (0.5 - 0.5 * cos t) powr 0.85 \<and> (0.5 - 0.5 * cos t :: real) powr 0.85 \<le> 1"
proof -
  have "\<bar>0.5 - 0.5 * cos t\<bar> \<le> (1::real)"
    using cos_ge_minus_one[of t] cos_le_one[of t] unfolding abs_le_iff by linarith
  then show ?thesis by (simp add: powr_le1)
qed

lemma window_init_bounds:
  "i < nat W \<Longrightarrow> 0 \<le> window_init W ! i \<and> window_init W ! i \<le> 1"
  unfolding window_init_nth by (rule hann_powr_bounds)

lemma window_init_symmetric:
  assumes "2 \<le> W" "i < nat W"
  shows "window_init W ! i = window_init W ! (nat W - 1 - i)"
proof -
  let ?a = "2 * pi / real_of_int (W - 1)"
  have "?a * real (nat W - 1 - i) = 2 * pi - ?a * real i"
    using assms by (simp add: of_nat_diff field_simps)
  then show ?thesis using assms by (simp add: window_init_nth cos_2pi_minus)
qed

lemma window_init_first: "1 \<le> W \<Longrightarrow> window_init W ! 0 = 0"
  by (simp add: window_init_nth)

lemma window_extract_gather:
  assumes "0 \<le> sample_offset" "0 < wave_size" "int (length wave) = wave_size"
    and "sample_offset = 0 \<or> sample_offset \<le> calc_first_sample index window_shift window_size"
    and "gather_reflect wave wave_size (calc_first_sample index window_shift window_size - sample_offset)
           window_size = Some g"
  shows "window_extract scale sample_offset wave wave_size index window_shift window_size =
         Inr (window_process scale g)"
  using assms by (auto simp: window_extract_def Let_def extract_samples_eq_gather)

subsection \<open>Properties\<close>

text \<open>
  C27. The mirroring loop of \<open>window_extract\<close> returns exactly when the buffer is
  non-empty, and then returns an index inside the buffer.
\<close>

theorem reflect_index_terminates_iff:
  assumes "0 \<le> wave_size"
  shows "(reflect_index wave_size j \<noteq> None \<longleftrightarrow> wave_size \<noteq> 0) \<and>
         (\<forall>r. reflect_index wave_size j = Some r \<longrightarrow> 0 \<le> r \<and> r < wave_size)"
proof (cases "wave_size = 0")
  case True
  then show ?thesis by (simp add: reflect_index_zero)
next
  case False
  with assms obtain r where "reflect_index wave_size j = Some r" "0 \<le> r" "r < wave_size"
    using reflect_index_total[of wave_size j] by auto
  with False show ?thesis by simp
qed

theorem reflect_index_terminates_iff_witness:
  "reflect_index 3 (-5) \<noteq> None \<and> reflect_index 0 7 = None"
  using reflect_index_terminates_iff[of 3 "-5"] reflect_index_terminates_iff[of 0 7] by simp

text \<open>
  C28. \<open>window_extract\<close> fails only on its two assertions (an empty or misplaced
  buffer, or a frame that starts before the buffer); otherwise both of its copy
  branches (the \<open>memcpy\<close> fast path and the mirroring loop) read sample
  \<open>reflect(start - offset + i)\<close> of the buffer for each \<open>i < window_size\<close>, and
  the result is that window after DC removal, pre-emphasis and weighting.
\<close>

theorem window_extract_branches:
  assumes "int (length wave) = wave_size"
  shows "window_extract scale sample_offset wave wave_size index window_shift window_size =
    (if \<not> (0 \<le> sample_offset \<and> wave_size \<noteq> 0) then Inl BadWaveform
     else if \<not> (sample_offset = 0 \<or> sample_offset \<le> calc_first_sample index window_shift window_size)
     then Inl OffsetPastFrame
     else Inr (window_process scale
       (map (\<lambda>i. wave ! nat (the (reflect_index wave_size
          (calc_first_sample index window_shift window_size - sample_offset + int i))))
          [0..<nat window_size])))"
proof -
  have "0 \<le> wave_size" using assms by auto
  then show ?thesis
    using assms by (auto simp: window_extract_def Let_def extract_samples_eq_gather gather_reflect_eq)
qed

theorem window_extract_branches_witness:
  "window_extract [1, 1, 1] 0 [1, 2, 3, 4, 5] 5 0 2 3 = Inr [- 3 / 100, 97 / 100, 1] \<and>
   window_extract [1, 1, 1] 0 [] 0 0 2 3 = Inl BadWaveform"
proof -
  have "window_extract [1, 1, 1] 0 [1, 2, 3, 4, 5] 5 0 2 3 =
        Inr (window_process [1, 1, 1] (map (\<lambda>i. [1, 2, 3, 4, 5] ! nat (the (reflect_index 5 (int i)))) [0..<3]))"
    using window_extract_branches[of "[1, 2, 3, 4, 5]" 5 "[1, 1, 1]" 0 0 2 3]
    by (simp add: calc_first_sample_def)
  also have "\<dots> = Inr [- 3 / 100, 97 / 100, 1]"
    by (simp add: reflect_index_in_range upt_rec window_process_def remove_dc_offset_def
                  preemphasize_def numeral_eq_Suc)
  finally show ?thesis
    using window_extract_branches[of "[]" 0 "[1, 1, 1]" 0 0 2 3] by simp
qed

text \<open>
  C29. DC removal leaves a window whose samples sum to zero.
\<close>

theorem remove_dc_offset_zero_mean:
  assumes "waveform \<noteq> []"
  shows "sum_list (remove_dc_offset waveform) = 0 \<and> length (remove_dc_offset waveform) = length waveform"
  using assms by (simp add: remove_dc_offset_sum)

theorem remove_dc_offset_zero_mean_witness:
  "sum_list (remove_dc_offset [1, 2, 6]) = 0"
  using remove_dc_offset_zero_mean[of "[1, 2, 6]"] by simp

text \<open>
  C30. The in-place pre-emphasis loop, run from the last sample down to the first,
  computes the backward difference of the original samples:
  \<open>y[k] = x[k] - c x[k-1]\<close> for \<open>k > 0\<close> and \<open>y[0] = x[0] - c x[0]\<close>.
\<close>

theorem preemphasize_backward_difference:
  assumes "k < length waveform"
  shows "preemphasize waveform c ! k =
    (if k = 0 then waveform ! 0 - c * waveform ! 0 else waveform ! k - c * waveform ! (k - 1))"
  using assms by (rule preemphasize_nth)

theorem preemphasize_backward_difference_witness:
  "preemphasize [1, 2, 4] (1 / 2) ! 2 = 3"
  using preemphasize_backward_difference[of 2 "[1, 2, 4]" "1 / 2"] by simp

text \<open>
  C31. The analysis window has \<open>window_size\<close> weights, each in \<open>[0, 1]\<close>, the first
  one zero, and symmetric about the centre.
\<close>

theorem window_init_shape:
  assumes "2 \<le> window_size"
  shows "length (window_init window_size) = nat window_size \<and>
         window_init window_size ! 0 = 0 \<and>
         (\<forall>i < nat window_size.
            0 \<le> window_init window_size ! i \<and> window_init window_size ! i \<le> 1 \<and>
            window_init window_size ! i = window_init window_size ! (nat window_size - 1 - i))"
proof -
  have "\<forall>i < nat window_size.
          0 \<le> window_init window_size ! i \<and> window_init window_size ! i \<le> 1 \<and>
          window_init window_size ! i = window_init window_size ! (nat window_size - 1 - i)"
  proof (intro allI impI conjI)
    fix i assume i: "i < nat window_size"
    show "0 \<le> window_init window_size ! i" using window_init_bounds[OF i] by (rule conjunct1)
    show "window_init window_size ! i \<le> 1" using window_init_bounds[OF i] by (rule conjunct2)
    show "window_init window_size ! i = window_init window_size ! (nat window_size - 1 - i)"
      by (rule window_init_symmetric[OF assms i])
  qed
  moreover have "length (window_init window_size) = nat window_size" by simp
  moreover have "window_init window_size ! 0 = 0" using assms by (simp add: window_init_first)
  ultimately show ?thesis by (intro conjI)
qed
theorem window_init_shape_witness:
  "length (window_init 400) = 400 \<and> window_init 400 ! 0 = 0 \<and>
   window_init 400 ! 10 = window_init 400 ! 389"
proof -
  have shape: "length (window_init 400) = nat 400 \<and> window_init 400 ! 0 = 0 \<and>
         (\<forall>i < nat 400. 0 \<le> window_init 400 ! i \<and> window_init 400 ! i \<le> 1 \<and>
            window_init 400 ! i = window_init 400 ! (nat 400 - 1 - i))"
    by (rule window_init_shape) simp
  have "10 < nat 400 \<longrightarrow> 0 \<le> window_init 400 ! 10 \<and> window_init 400 ! 10 \<le> 1 \<and>
          window_init 400 ! 10 = window_init 400 ! (nat 400 - 1 - 10)"
    using shape[THEN conjunct2, THEN conjunct2] by (rule spec)
  then have "window_init 400 ! 10 = window_init 400 ! (nat 400 - 1 - 10)" by simp
  moreover have "nat 400 - 1 - 10 = (389::nat)" by simp
  ultimately show ?thesis using shape[THEN conjunct1] shape[THEN conjunct2, THEN conjunct1] by simp
qed
end
