(* ===== verification/KNF_Fbank.thy ===== *)
theory KNF_Fbank
  imports KNF_Prelude
begin

text \<open>
  The power-spectrum filterbank of \<open>src/knf.c\<close> (lines 110--227).  \<open>mel_init\<close>
  builds the 80 triangular mel filters once; each is stored as the contiguous run
  of its non-zero weights and the FFT bin where the run starts.  The scratch array
  \<open>this_bin\<close> is allocated uninitialised and reused, without clearing, by every
  filter: it is threaded through the model as state, and its initial content is a
  parameter.  \<open>fbank_compute\<close> runs FFTW's real-input forward transform (modelled
  by its defining sum \<open>rdft\<close>), forms the power spectrum with the source's
  shortcut at bin 0 and at the Nyquist bin, and takes the log of each filter's
  energy floored at \<open>FLT_EPSILON\<close>.  All arithmetic is over \<open>real\<close> and
  \<open>complex\<close>: the source's single-precision rounding is not modelled.
\<close>

definition NB_MEL_BINS :: nat where
  "NB_MEL_BINS = 80"

text \<open>\<open>FLT_EPSILON\<close> of \<open><float.h>\<close>, exactly \<open>2\<^sup>-\<^sup>2\<^sup>3\<close>.\<close>

definition FLT_EPSILON :: real where
  "FLT_EPSILON = 1 / 2 ^ 23"

definition MelScale :: "real \<Rightarrow> real" where
  "MelScale freq = 1127 * ln (1 + freq / 700)"

record mel_bin =
  bin_offset :: int
  bin_scale :: "real list"

record fbank =
  fb_size :: int
  bins :: "mel_bin list"

text \<open>The triangular weight of lines 156--159, for a point strictly inside \<open>(left, right)\<close>.\<close>

definition triangle_weight :: "real \<Rightarrow> real \<Rightarrow> real \<Rightarrow> real \<Rightarrow> real" where
  "triangle_weight left_mel center_mel right_mel mel =
     (if mel \<le> center_mel then (mel - left_mel) / (center_mel - left_mel)
      else (right_mel - mel) / (right_mel - center_mel))"

text \<open>The band test of line 155, \<open>mel > left_mel && mel < right_mel\<close>, at FFT bin \<open>i\<close>.\<close>

definition in_band :: "real \<Rightarrow> real \<Rightarrow> real \<Rightarrow> nat \<Rightarrow> bool" where
  "in_band w l r i \<longleftrightarrow> l < MelScale (w * real i) \<and> MelScale (w * real i) < r"

text \<open>One step of the scan over the FFT bins for one filter (lines 152--164).\<close>

definition mel_point ::
  "real \<Rightarrow> real \<Rightarrow> real \<Rightarrow> real \<Rightarrow> nat \<Rightarrow> real list \<times> int \<times> int \<Rightarrow> real list \<times> int \<times> int" where
  "mel_point fft_bin_width left_mel center_mel right_mel i st =
     (case st of (this_bin, first_index, last_index) \<Rightarrow>
        let freq = fft_bin_width * real i;
            mel = MelScale freq
        in if mel > left_mel \<and> mel < right_mel
           then (this_bin[i := triangle_weight left_mel center_mel right_mel mel],
                 if first_index = -1 then int i else first_index,
                 int i)
           else (this_bin, first_index, last_index))"

definition mel_scan ::
  "real \<Rightarrow> real \<Rightarrow> real \<Rightarrow> real \<Rightarrow> nat \<Rightarrow> real list \<Rightarrow> real list \<times> int \<times> int" where
  "mel_scan fft_bin_width left_mel center_mel right_mel num_fft_bins this_bin =
     fold (mel_point fft_bin_width left_mel center_mel right_mel) [0..<num_fft_bins]
          (this_bin, -1, -1)"

text \<open>The loop over the filters (lines 146--175), threading the scratch array.\<close>

fun mel_bins_loop ::
  "real \<Rightarrow> real \<Rightarrow> real \<Rightarrow> nat \<Rightarrow> nat list \<Rightarrow> real list \<Rightarrow> knf_error + mel_bin list" where
  "mel_bins_loop fft_bin_width mel_low_freq mel_freq_delta num_fft_bins [] this_bin = Inr []"
| "mel_bins_loop fft_bin_width mel_low_freq mel_freq_delta num_fft_bins (bin # rest) this_bin =
     (let left_mel = mel_low_freq + real bin * mel_freq_delta;
          center_mel = mel_low_freq + real (bin + 1) * mel_freq_delta;
          right_mel = mel_low_freq + real (bin + 2) * mel_freq_delta
      in case mel_scan fft_bin_width left_mel center_mel right_mel num_fft_bins this_bin of
           (this_bin', first_index, last_index) \<Rightarrow>
             if \<not> (first_index \<noteq> -1 \<and> last_index \<ge> first_index) then Inl EmptyMelBin
             else
               let bin_size = last_index + 1 - first_index;
                   b = \<lparr>bin_offset = first_index,
                        bin_scale = take (nat bin_size) (drop (nat first_index) this_bin')\<rparr>
               in case mel_bins_loop fft_bin_width mel_low_freq mel_freq_delta num_fft_bins rest this_bin' of
                    Inl e \<Rightarrow> Inl e
                  | Inr bs \<Rightarrow> Inr (b # bs))"

definition mel_init :: "real \<Rightarrow> int \<Rightarrow> real list \<Rightarrow> knf_error + mel_bin list" where
  "mel_init sample_freq window_length_padded this_bin =
     (let num_fft_bins = window_length_padded div 2;
          fft_bin_width = sample_freq / real_of_int window_length_padded;
          mel_low_freq = MelScale 20;
          mel_high_freq = MelScale (0.5 * sample_freq - 400);
          mel_freq_delta = (mel_high_freq - mel_low_freq) / real (NB_MEL_BINS + 1)
      in mel_bins_loop fft_bin_width mel_low_freq mel_freq_delta (nat num_fft_bins)
           [0..<NB_MEL_BINS] this_bin)"

text \<open>
  \<open>fbank_init\<close> (lines 180--189); the FFTW buffers and plan are not state of the
  model, and the scratch array of \<open>mel_init\<close> starts as \<open>this_bin\<close>.
\<close>

definition fbank_init :: "int \<Rightarrow> int \<Rightarrow> real list \<Rightarrow> knf_error + fbank" where
  "fbank_init sample_rate fft_size this_bin =
     (case mel_init (real_of_int sample_rate) fft_size this_bin of
        Inl e \<Rightarrow> Inl e
      | Inr bs \<Rightarrow> Inr \<lparr>fb_size = fft_size, bins = bs\<rparr>)"

text \<open>FFTW's unnormalised real-input forward transform, \<open>out[k] = \<Sum>n in[n] e^{-2\<pi>ikn/N}\<close>.\<close>

definition rdft :: "real list \<Rightarrow> nat \<Rightarrow> complex" where
  "rdft x k = (\<Sum>n<length x. complex_of_real (x ! n) * cis (- 2 * pi * real k * real n / real (length x)))"

text \<open>Lines 207--214: bins 0 and \<open>half_size\<close> use the real part only.\<close>

definition power_spectrum :: "nat \<Rightarrow> complex list \<Rightarrow> real list" where
  "power_spectrum half_size out =
     map (\<lambda>i. if i = 0 \<or> i = half_size then Re (out ! i) * Re (out ! i)
              else Re (out ! i) * Re (out ! i) + Im (out ! i) * Im (out ! i))
         [0..<half_size + 1]"

text \<open>\<open>for (int k = 0; k < s->bins[i].size; k++) energy += scale[k] * s->power[k + offset];\<close>\<close>

fun energy_loop :: "real \<Rightarrow> real list \<Rightarrow> nat \<Rightarrow> real list \<Rightarrow> nat \<Rightarrow> real" where
  "energy_loop energy [] offset spectrum k = energy"
| "energy_loop energy (w # ws) offset spectrum k =
     energy_loop (energy + w * spectrum ! (k + offset)) ws offset spectrum (Suc k)"

definition fbank_compute :: "fbank \<Rightarrow> real list \<Rightarrow> real list" where
  "fbank_compute s samples =
     (let input = take (nat (fb_size s)) samples;
          half_size = nat (fb_size s div 2);
          out = map (rdft input) [0..<half_size + 1];
          spectrum = power_spectrum half_size out
      in map (\<lambda>b. let energy = energy_loop 0 (bin_scale b) (nat (bin_offset b)) spectrum 0
                  in ln (max energy FLT_EPSILON))
             (bins s))"


text \<open>Well-formed filter tables: every run of weights lies inside the spectrum.\<close>

definition fbank_wf :: "fbank \<Rightarrow> bool" where
  "fbank_wf s \<longleftrightarrow> (\<forall>b \<in> set (bins s). 0 \<le> bin_offset b \<and>
       nat (bin_offset b) + length (bin_scale b) \<le> nat (fb_size s div 2))"


subsection \<open>Energies and the power spectrum\<close>
lemma energy_loop_eq:
  "energy_loop e ws off sp k = e + (\<Sum>j<length ws. ws ! j * sp ! (k + j + off))"
proof (induction ws arbitrary: e k)
  case Nil
  then show ?case by simp
next
  case (Cons w ws)
  have "(\<Sum>j<length (w # ws). (w # ws) ! j * sp ! (k + j + off)) =
        w * sp ! (k + off) + (\<Sum>j<length ws. ws ! j * sp ! (Suc k + j + off))"
    by (simp only: length_Cons sum.lessThan_Suc_shift) simp
  then show ?case
    using Cons[of "e + w * sp ! (k + off)" "Suc k"] by simp
qed

lemma fbank_compute_length [simp]: "length (fbank_compute s x) = length (bins s)"
  by (simp add: fbank_compute_def Let_def)

lemma FLT_EPSILON_pos: "0 < FLT_EPSILON"
  by (simp add: FLT_EPSILON_def)

lemma fbank_compute_nth:
  "i < length (bins s) \<Longrightarrow> fbank_compute s x ! i =
     ln (max (energy_loop 0 (bin_scale (bins s ! i)) (nat (bin_offset (bins s ! i)))
               (power_spectrum (nat (fb_size s div 2))
                  (map (rdft (take (nat (fb_size s)) x)) [0..<nat (fb_size s div 2) + 1])) 0)
             FLT_EPSILON)"
  by (simp add: fbank_compute_def Let_def)

lemma ln_max_FLT_EPSILON: "ln FLT_EPSILON \<le> ln (max e FLT_EPSILON)"
  using FLT_EPSILON_pos by (subst ln_le_cancel_iff) auto

lemma fbank_compute_ge:
  "v \<in> set (fbank_compute s x) \<Longrightarrow> ln FLT_EPSILON \<le> v"
  by (auto simp: fbank_compute_def Let_def ln_max_FLT_EPSILON)

lemma rdft_zero: "(\<forall>v \<in> set x. v = 0) \<Longrightarrow> rdft x k = 0"
  by (auto simp: rdft_def intro!: sum.neutral)

lemma fbank_compute_silence:
  assumes "fbank_wf s" "\<forall>v \<in> set x. v = 0"
  shows "fbank_compute s x = replicate (length (bins s)) (ln FLT_EPSILON)"
proof -
  have z: "\<forall>v \<in> set (take (nat (fb_size s)) x). v = 0"
    using assms(2) by (meson in_set_takeD)
  have "map (rdft (take (nat (fb_size s)) x)) [0..<n] = replicate n 0" for n
    by (rule nth_equalityI) (simp_all add: rdft_zero[OF z])
  note m = this
  have p0: "power_spectrum h (replicate (h + 1) 0) = replicate (h + 1) 0" for h
    by (rule nth_equalityI) (simp_all add: power_spectrum_def del: upt_Suc replicate_Suc)
  have p: "power_spectrum h (map (rdft (take (nat (fb_size s)) x)) [0..<h + 1]) = replicate (h + 1) 0" for h
    by (simp only: m p0)
  have e: "off + length ws \<le> m \<Longrightarrow> energy_loop 0 ws off (replicate m 0) 0 = 0" for ws off m
    by (simp add: energy_loop_eq)
  have E: "\<And>b. b \<in> set (bins s) \<Longrightarrow>
      energy_loop 0 (bin_scale b) (nat (bin_offset b)) (replicate (nat (fb_size s div 2) + 1) 0) 0 = 0"
    using assms(1) by (intro e) (auto simp: fbank_wf_def)
  show ?thesis
  proof (rule nth_equalityI)
    show "length (fbank_compute s x) = length (replicate (length (bins s)) (ln FLT_EPSILON))"
      by simp
    fix i assume "i < length (fbank_compute s x)"
    then have i: "i < length (bins s)" by simp
    then have "energy_loop 0 (bin_scale (bins s ! i)) (nat (bin_offset (bins s ! i)))
                 (replicate (nat (fb_size s div 2) + 1) 0) 0 = 0"
      using E by simp
    then show "fbank_compute s x ! i = replicate (length (bins s)) (ln FLT_EPSILON) ! i"
      using i FLT_EPSILON_pos by (simp only: fbank_compute_nth[OF i] p) simp
  qed
qed
lemma Im_rdft: "Im (rdft x k) = (\<Sum>n<length x. x ! n * sin (- 2 * pi * real k * real n / real (length x)))"
  by (simp add: rdft_def Im_sum)

lemma rdft_dc_real: "Im (rdft x 0) = 0"
  by (simp add: Im_rdft)

lemma rdft_nyquist_real:
  assumes "length x = 2 * h"
  shows "Im (rdft x h) = 0"
proof (cases "h = 0")
  case True
  then show ?thesis using assms by (simp add: Im_rdft)
next
  case False
  have "- 2 * pi * real h * real n / real (length x) = - (real n * pi)" for n
    using assms False by (simp add: field_simps)
  then show ?thesis by (simp add: Im_rdft sin_npi)
qed

lemma power_spectrum_cmod:
  assumes "length x = 2 * h" "k \<le> h"
  shows "power_spectrum h (map (rdft x) [0..<h + 1]) ! k = (cmod (rdft x k))\<^sup>2"
proof -
  have "k = 0 \<or> k = h \<Longrightarrow> Im (rdft x k) = 0"
    using assms by (auto simp: rdft_dc_real rdft_nyquist_real)
  then show ?thesis
    unfolding cmod_power2
    using assms by (auto simp: power_spectrum_def power2_eq_square nth_append simp del: upt_Suc)
qed

subsection \<open>The filter tables\<close>

lemma mel_point_eq:
  "mel_point w l c r i (buf, f, la) =
     (if in_band w l r i
      then (buf[i := triangle_weight l c r (MelScale (w * real i))], if f = -1 then int i else f, int i)
      else (buf, f, la))"
  by (simp add: mel_point_def in_band_def Let_def)

lemma fold_upt_Suc: "fold g [0..<Suc n] s = g n (fold g [0..<n] s)"
  by simp

lemma mel_scan_buffer:
  "fst (fold (mel_point w l c r) [0..<n] (buf, f, la)) =
     map (\<lambda>i. if i < n \<and> in_band w l r i then triangle_weight l c r (MelScale (w * real i)) else buf ! i)
         [0..<length buf]"
proof (induction n)
  case 0
  then show ?case by (simp add: map_nth)
next
  case (Suc n)
  obtain b0 f0 la0 where prev: "fold (mel_point w l c r) [0..<n] (buf, f, la) = (b0, f0, la0)"
    by (cases "fold (mel_point w l c r) [0..<n] (buf, f, la)") auto
  with Suc have b0: "b0 = map (\<lambda>i. if i < n \<and> in_band w l r i
                      then triangle_weight l c r (MelScale (w * real i)) else buf ! i) [0..<length buf]"
    by simp
  have "fold (mel_point w l c r) [0..<Suc n] (buf, f, la) = mel_point w l c r n (b0, f0, la0)"
    by (simp add: prev)
  then have cur: "fst (fold (mel_point w l c r) [0..<Suc n] (buf, f, la)) =
      (if in_band w l r n then b0[n := triangle_weight l c r (MelScale (w * real n))] else b0)"
    by (simp add: mel_point_eq)
  show ?case
  proof (rule nth_equalityI)
    show "length (fst (fold (mel_point w l c r) [0..<Suc n] (buf, f, la))) =
          length (map (\<lambda>i. if i < Suc n \<and> in_band w l r i
             then triangle_weight l c r (MelScale (w * real i)) else buf ! i) [0..<length buf])"
      by (simp only: cur) (simp add: b0)
    fix i assume "i < length (fst (fold (mel_point w l c r) [0..<Suc n] (buf, f, la)))"
    then have i: "i < length buf" by (simp only: cur) (simp add: b0 split: if_splits)
    show "fst (fold (mel_point w l c r) [0..<Suc n] (buf, f, la)) ! i =
          map (\<lambda>i. if i < Suc n \<and> in_band w l r i
             then triangle_weight l c r (MelScale (w * real i)) else buf ! i) [0..<length buf] ! i"
      using i by (simp only: cur) (cases "i = n"; simp add: b0 nth_list_update less_Suc_eq)
  qed
qed

lemma mel_scan_indices:
  assumes "fold (mel_point w l c r) [0..<n] (buf, -1, -1) = (buf', f, la)"
  shows "(f = -1 \<and> la = -1 \<and> (\<forall>i < n. \<not> in_band w l r i)) \<or>
         (0 \<le> f \<and> f \<le> la \<and> la < int n \<and> in_band w l r (nat f) \<and> in_band w l r (nat la))"
  using assms
proof (induction n arbitrary: buf' f la)
  case 0
  then show ?case by simp
next
  case (Suc n)
  obtain b0 f0 la0 where prev: "fold (mel_point w l c r) [0..<n] (buf, -1, -1) = (b0, f0, la0)"
    by (cases "fold (mel_point w l c r) [0..<n] (buf, -1, -1)") auto
  note IH = Suc.IH[OF prev]
  have step: "mel_point w l c r n (b0, f0, la0) = (buf', f, la)"
    using Suc.prems prev by simp
  show ?case
  proof (cases "in_band w l r n")
    case True
    then have f: "f = (if f0 = -1 then int n else f0)" and la: "la = int n"
      using step by (simp_all add: mel_point_eq)
    from IH show ?thesis
    proof
      assume "f0 = -1 \<and> la0 = -1 \<and> (\<forall>i < n. \<not> in_band w l r i)"
      then show ?thesis using f la True by simp
    next
      assume "0 \<le> f0 \<and> f0 \<le> la0 \<and> la0 < int n \<and> in_band w l r (nat f0) \<and> in_band w l r (nat la0)"
      then show ?thesis using f la True by simp
    qed
  next
    case False
    then have "f = f0" "la = la0" using step by (simp_all add: mel_point_eq)
    from IH show ?thesis
    proof
      assume "f0 = -1 \<and> la0 = -1 \<and> (\<forall>i < n. \<not> in_band w l r i)"
      then show ?thesis using \<open>f = f0\<close> \<open>la = la0\<close> False less_Suc_eq by auto
    next
      assume "0 \<le> f0 \<and> f0 \<le> la0 \<and> la0 < int n \<and> in_band w l r (nat f0) \<and> in_band w l r (nat la0)"
      then show ?thesis using \<open>f = f0\<close> \<open>la = la0\<close> by simp
    qed
  qed
qed

lemma MelScale_mono: "0 \<le> f1 \<Longrightarrow> f1 \<le> f2 \<Longrightarrow> MelScale f1 \<le> MelScale f2"
  by (simp add: MelScale_def divide_right_mono)

lemma in_band_between:
  assumes "0 \<le> w" "in_band w l r a" "in_band w l r b" "a \<le> i" "i \<le> b"
  shows "in_band w l r i"
proof -
  have "MelScale (w * real a) \<le> MelScale (w * real i)"
    using assms by (intro MelScale_mono) (auto intro: mult_left_mono)
  moreover have "MelScale (w * real i) \<le> MelScale (w * real b)"
    using assms by (intro MelScale_mono) (auto intro: mult_left_mono)
  ultimately show ?thesis using assms by (auto simp: in_band_def)
qed

text \<open>The stored run of a filter: its weights at the FFT bins \<open>first..last\<close>, whatever the scratch array held.\<close>

lemma mel_scan_run:
  assumes scan: "fold (mel_point w l c r) [0..<n] (buf, -1, -1) = (buf', f, la)"
    and "0 \<le> w" "length buf = n" "f \<noteq> -1"
  shows "0 \<le> f \<and> f \<le> la \<and> la < int n \<and>
         take (nat (la + 1 - f)) (drop (nat f) buf') =
           map (\<lambda>i. triangle_weight l c r (MelScale (w * real i))) [nat f..<nat la + 1] \<and>
         (\<forall>i \<in> {nat f..nat la}. in_band w l r i)"
proof -
  have idx: "0 \<le> f" "f \<le> la" "la < int n" "in_band w l r (nat f)" "in_band w l r (nat la)"
    using mel_scan_indices[OF scan] assms(4) by blast+
  have band: "\<forall>i \<in> {nat f..nat la}. in_band w l r i"
  proof
    fix i assume "i \<in> {nat f..nat la}"
    then show "in_band w l r i" using in_band_between[OF assms(2) idx(4) idx(5)] by simp
  qed
  have buf': "buf' = map (\<lambda>i. if i < n \<and> in_band w l r i
                 then triangle_weight l c r (MelScale (w * real i)) else buf ! i) [0..<length buf]"
    using mel_scan_buffer[of w l c r n buf "-1" "-1"] scan by (simp only: fst_conv)
  have "take (nat (la + 1 - f)) (drop (nat f) buf') =
        map (\<lambda>i. triangle_weight l c r (MelScale (w * real i))) [nat f..<nat la + 1]"
  proof (rule nth_equalityI)
    show "length (take (nat (la + 1 - f)) (drop (nat f) buf')) =
          length (map (\<lambda>i. triangle_weight l c r (MelScale (w * real i))) [nat f..<nat la + 1])"
      using idx assms(3) by (simp add: buf' del: upt_Suc)
    fix k assume "k < length (take (nat (la + 1 - f)) (drop (nat f) buf'))"
    then have k: "k < nat (la + 1 - f)" "nat f + k < n"
      using idx assms(3) by (simp_all add: buf' del: upt_Suc)
    then have kb: "in_band w l r (nat f + k)" using band idx by simp
    have lb: "length buf' = n" using assms(3) by (simp add: buf' del: upt_Suc)
    have "take (nat (la + 1 - f)) (drop (nat f) buf') ! k = buf' ! (nat f + k)"
      using k lb by simp
    also have "\<dots> = triangle_weight l c r (MelScale (w * real (nat f + k)))"
      using k kb assms(3) by (simp add: buf' del: upt_Suc)
    also have "\<dots> = map (\<lambda>i. triangle_weight l c r (MelScale (w * real i))) [nat f..<nat la + 1] ! k"
    proof -
      have "nat f + k < nat la + 1" using k idx by linarith
      then have "[nat f..<nat la + 1] ! k = nat f + k" by (rule nth_upt)
      then show ?thesis using k idx by (simp del: upt_Suc)
    qed
    finally show "take (nat (la + 1 - f)) (drop (nat f) buf') ! k =
          map (\<lambda>i. triangle_weight l c r (MelScale (w * real i))) [nat f..<nat la + 1] ! k" .
  qed
  then show ?thesis using idx band by simp
qed

lemma mel_scan_snd:
  "snd (fold (mel_point w l c r) xs (b1, st)) = snd (fold (mel_point w l c r) xs (b2, st))"
proof (induction xs arbitrary: b1 b2 st)
  case Nil
  then show ?case by simp
next
  case (Cons x xs)
  obtain f la where st: "st = (f, la)" by (cases st)
  show ?case
    using Cons[of "fst (mel_point w l c r x (b1, f, la))" "snd (mel_point w l c r x (b1, f, la))"
                  "fst (mel_point w l c r x (b2, f, la))"]
    by (simp add: st mel_point_eq)
qed

lemma mel_scan_length:
  "length (fst (fold (mel_point w l c r) [0..<n] (buf, f, la))) = length buf"
  by (simp add: mel_scan_buffer)

lemma triangle_weight_bounds:
  assumes "l < c" "c < r" "l < m" "m < r"
  shows "0 < triangle_weight l c r m \<and> triangle_weight l c r m \<le> 1"
  using assms by (auto simp: triangle_weight_def divide_le_eq_1 field_simps)

lemma mel_bins_loop_scratch:
  assumes "0 \<le> w" "length buf1 = n" "length buf2 = n"
  shows "mel_bins_loop w low delta n bs buf1 = mel_bins_loop w low delta n bs buf2"
  using assms(2,3)
proof (induction bs arbitrary: buf1 buf2)
  case Nil
  then show ?case by simp
next
  case (Cons bin rest)
  let ?l = "low + real bin * delta" and ?c = "low + real (bin + 1) * delta"
    and ?r = "low + real (bin + 2) * delta"
  obtain b1 f1 la1 where s1: "mel_scan w ?l ?c ?r n buf1 = (b1, f1, la1)"
    by (cases "mel_scan w ?l ?c ?r n buf1") auto
  obtain b2 f2 la2 where s2: "mel_scan w ?l ?c ?r n buf2 = (b2, f2, la2)"
    by (cases "mel_scan w ?l ?c ?r n buf2") auto
  have f1: "fold (mel_point w ?l ?c ?r) [0..<n] (buf1, -1, -1) = (b1, f1, la1)"
    using s1 by (simp add: mel_scan_def)
  have f2: "fold (mel_point w ?l ?c ?r) [0..<n] (buf2, -1, -1) = (b2, f2, la2)"
    using s2 by (simp add: mel_scan_def)
  have same: "f1 = f2" "la1 = la2"
    using mel_scan_snd[of w ?l ?c ?r "[0..<n]" buf1 "(-1, -1)" buf2] f1 f2 by simp_all
  have lens: "length b1 = n" "length b2 = n"
    using mel_scan_length[of w ?l ?c ?r n buf1 "-1" "-1"] mel_scan_length[of w ?l ?c ?r n buf2 "-1" "-1"]
      f1 f2 Cons.prems by simp_all
  have IH: "mel_bins_loop w low delta n rest b1 = mel_bins_loop w low delta n rest b2"
    using Cons.IH lens by blast
  show ?case
  proof (cases "f1 \<noteq> -1 \<and> la1 \<ge> f1")
    case True
    have eq: "take (nat (la1 + 1 - f1)) (drop (nat f1) b1) = take (nat (la1 + 1 - f1)) (drop (nat f1) b2)"
      using mel_scan_run[OF f1 assms(1) Cons.prems(1)] mel_scan_run[OF f2 assms(1) Cons.prems(2)]
        True same by simp
    have s2': "mel_scan w ?l ?c ?r n buf2 = (b2, f1, la1)" using s2 same by simp
    show ?thesis using True IH s1 s2' by (simp add: Let_def) (simp only: eq)
  next
    case False
    then show ?thesis using same s1 s2 by (simp add: Let_def)
  qed
qed

lemma mel_bins_loop_ok:
  assumes "mel_bins_loop w low delta n bs buf = Inr res" "0 \<le> w" "length buf = n"
  shows "length res = length bs \<and>
    (\<forall>b \<in> set res. 0 \<le> bin_offset b \<and> nat (bin_offset b) + length (bin_scale b) \<le> n \<and>
       bin_scale b \<noteq> [] \<and> (\<forall>x \<in> set (bin_scale b). 0 < x \<and> x \<le> 1))"
  using assms(1,3)
proof (induction bs arbitrary: buf res)
  case Nil
  then show ?case by simp
next
  case (Cons bin rest)
  let ?l = "low + real bin * delta" and ?c = "low + real (bin + 1) * delta"
    and ?r = "low + real (bin + 2) * delta"
  obtain b1 f la where s1: "mel_scan w ?l ?c ?r n buf = (b1, f, la)"
    by (cases "mel_scan w ?l ?c ?r n buf") auto
  have f1: "fold (mel_point w ?l ?c ?r) [0..<n] (buf, -1, -1) = (b1, f, la)"
    using s1 by (simp add: mel_scan_def)
  have ok: "f \<noteq> -1 \<and> la \<ge> f"
    using Cons.prems(1) s1 by (auto simp: Let_def split: if_splits)
  obtain res' where rest: "mel_bins_loop w low delta n rest b1 = Inr res'"
    and res: "res = \<lparr>bin_offset = f, bin_scale = take (nat (la + 1 - f)) (drop (nat f) b1)\<rparr> # res'"
    using Cons.prems(1) s1 ok by (auto simp: Let_def split: sum.splits)
  have lb1: "length b1 = n"
    using mel_scan_length[of w ?l ?c ?r n buf "-1" "-1"] f1 Cons.prems(2) by simp
  have run: "0 \<le> f \<and> f \<le> la \<and> la < int n \<and>
      take (nat (la + 1 - f)) (drop (nat f) b1) =
        map (\<lambda>i. triangle_weight ?l ?c ?r (MelScale (w * real i))) [nat f..<nat la + 1] \<and>
      (\<forall>i \<in> {nat f..nat la}. in_band w ?l ?r i)"
    using mel_scan_run[OF f1 assms(2) Cons.prems(2)] ok by blast
  have "f \<le> la" using run by blast
  then have "nat f \<in> {nat f..nat la}" by simp
  then have band: "in_band w ?l ?r (nat f)" using run by blast
  then have lcr: "?l < ?c" "?c < ?r"
    by (auto simp: in_band_def algebra_simps)
  have wt: "\<forall>i \<in> set [nat f..<nat la + 1].
      0 < triangle_weight ?l ?c ?r (MelScale (w * real i)) \<and> triangle_weight ?l ?c ?r (MelScale (w * real i)) \<le> 1"
  proof
    fix i assume "i \<in> set [nat f..<nat la + 1]"
    then have "i \<in> {nat f..nat la}" by auto
    then have "in_band w ?l ?r i" using run by blast
    then show "0 < triangle_weight ?l ?c ?r (MelScale (w * real i)) \<and>
               triangle_weight ?l ?c ?r (MelScale (w * real i)) \<le> 1"
      using lcr by (intro triangle_weight_bounds) (auto simp: in_band_def)
  qed
  have weights: "\<forall>x \<in> set (take (nat (la + 1 - f)) (drop (nat f) b1)). 0 < x \<and> x \<le> 1"
    using wt run by (simp del: upt_Suc)
  have "length res' = length rest \<and>
    (\<forall>b \<in> set res'. 0 \<le> bin_offset b \<and> nat (bin_offset b) + length (bin_scale b) \<le> n \<and>
       bin_scale b \<noteq> [] \<and> (\<forall>x \<in> set (bin_scale b). 0 < x \<and> x \<le> 1))"
    using Cons.IH[OF rest lb1] .
  then show ?case
    using res run weights lb1 by auto
qed

lemma mel_init_unfold:
  "mel_init sample_freq window_length_padded this_bin =
     mel_bins_loop (sample_freq / real_of_int window_length_padded) (MelScale 20)
       ((MelScale (0.5 * sample_freq - 400) - MelScale 20) / real (NB_MEL_BINS + 1))
       (nat (window_length_padded div 2)) [0..<NB_MEL_BINS] this_bin"
  by (simp add: mel_init_def Let_def)

lemma mel_init_ok:
  assumes "mel_init sample_freq window_length_padded this_bin = Inr bs"
    and "0 \<le> sample_freq" "0 < window_length_padded"
    and "length this_bin = nat (window_length_padded div 2)"
  shows "length bs = NB_MEL_BINS \<and>
    (\<forall>b \<in> set bs. 0 \<le> bin_offset b \<and>
       nat (bin_offset b) + length (bin_scale b) \<le> nat (window_length_padded div 2) \<and>
       bin_scale b \<noteq> [] \<and> (\<forall>x \<in> set (bin_scale b). 0 < x \<and> x \<le> 1))"
proof -
  have "0 \<le> sample_freq / real_of_int window_length_padded" using assms(2,3) by simp
  then show ?thesis
    using mel_bins_loop_ok[OF assms(1)[unfolded mel_init_unfold]] assms(4) by simp
qed

lemma fbank_init_wf:
  assumes "fbank_init sample_rate fft_size this_bin = Inr fb"
    and "0 \<le> sample_rate" "0 < fft_size" "length this_bin = nat (fft_size div 2)"
  shows "fbank_wf fb \<and> length (bins fb) = NB_MEL_BINS \<and> fb_size fb = fft_size"
proof -
  obtain bs where bs: "mel_init (real_of_int sample_rate) fft_size this_bin = Inr bs"
    and fb: "fb = \<lparr>fb_size = fft_size, bins = bs\<rparr>"
    using assms(1) by (auto simp: fbank_init_def split: sum.splits)
  show ?thesis
    using mel_init_ok[OF bs] assms(2-4) fb by (simp add: fbank_wf_def)
qed

subsection \<open>Which rates give every filter an FFT bin\<close>

lemma mel_scan_empty:
  "r \<le> l \<Longrightarrow> fold (mel_point w l c r) xs st = st"
  by (induction xs arbitrary: st) (auto simp: mel_point_def Let_def split: prod.splits)

lemma MelScale_low_rate:
  assumes "0 \<le> sf" "sf \<le> 840"
  shows "MelScale (0.5 * sf - 400) \<le> MelScale 20"
proof -
  have "0 < 1 + (0.5 * sf - 400) / 700" using assms by (simp add: field_simps)
  moreover have "1 + (0.5 * sf - 400) / 700 \<le> 1 + 20 / (700 :: real)" using assms by simp
  ultimately show ?thesis by (simp add: MelScale_def)
qed

lemma mel_init_low_rate:
  assumes "0 \<le> sf" "sf \<le> 840"
  shows "mel_init sf p buf = Inl EmptyMelBin"
proof -
  let ?d = "(MelScale (0.5 * sf - 400) - MelScale 20) / real (NB_MEL_BINS + 1)"
  have "?d \<le> 0" using MelScale_low_rate[OF assms] by (simp add: divide_nonpos_pos)
  moreover have "\<And>d c :: real. d \<le> 0 \<Longrightarrow> c + real (0 + 2) * d \<le> c + real 0 * d" by simp
  ultimately have "MelScale 20 + real (0 + 2) * ?d \<le> MelScale 20 + real 0 * ?d" by blast
  then have "mel_scan (sf / real_of_int p) (MelScale 20 + real 0 * ?d) (MelScale 20 + real (0 + 1) * ?d)
      (MelScale 20 + real (0 + 2) * ?d) (nat (p div 2)) buf = (buf, -1, -1)"
    unfolding mel_scan_def by (rule mel_scan_empty)
  moreover have "[0..<NB_MEL_BINS] = 0 # [1..<NB_MEL_BINS]" by (simp add: NB_MEL_BINS_def upt_rec)
  ultimately show ?thesis by (simp add: mel_init_unfold Let_def)
qed

lemma mel_bins_loop_succeeds:
  assumes "\<forall>b \<in> set bs. \<exists>i<n. in_band w (low + real b * delta) (low + real (b + 2) * delta) i"
    and "length buf = n"
  shows "\<exists>res. mel_bins_loop w low delta n bs buf = Inr res"
  using assms
proof (induction bs arbitrary: buf)
  case Nil
  then show ?case by simp
next
  case (Cons bin rest)
  let ?l = "low + real bin * delta" and ?c = "low + real (bin + 1) * delta"
    and ?r = "low + real (bin + 2) * delta"
  obtain b1 f la where s1: "mel_scan w ?l ?c ?r n buf = (b1, f, la)"
    by (cases "mel_scan w ?l ?c ?r n buf") auto
  have f1: "fold (mel_point w ?l ?c ?r) [0..<n] (buf, -1, -1) = (b1, f, la)"
    using s1 by (simp add: mel_scan_def)
  have "\<exists>i<n. in_band w ?l ?r i" using Cons.prems(1) by simp
  then have ok: "f \<noteq> -1 \<and> f \<le> la" using mel_scan_indices[OF f1] by auto
  have "length b1 = n"
    using mel_scan_length[of w ?l ?c ?r n buf "-1" "-1"] f1 Cons.prems(2) by simp
  then obtain res where "mel_bins_loop w low delta n rest b1 = Inr res"
    using Cons.IH Cons.prems(1) by auto
  then show ?case using s1 ok by (simp add: Let_def)
qed

lemma in_band_exists:
  assumes w: "0 < w" and l: "0 \<le> l"
    and wide: "w < 700 * (exp (r / 1127) - exp (l / 1127))"
    and top: "700 * (exp (r / 1127) - 1) \<le> w * real n"
  shows "\<exists>i<n. in_band w l r i"
proof -
  define a where "a = 700 * (exp (l / 1127) - 1)"
  define i where "i = nat \<lfloor>a / w\<rfloor> + 1"
  have a0: "0 \<le> a" using l by (simp add: a_def)
  have fl: "real_of_int \<lfloor>a / w\<rfloor> \<le> a / w" "a / w < real_of_int \<lfloor>a / w\<rfloor> + 1" by linarith+
  have ri: "real i = real_of_int \<lfloor>a / w\<rfloor> + 1" using a0 w by (simp add: i_def)
  have lo: "a < w * real i" using fl w ri by (simp add: field_simps)
  have "w * real_of_int \<lfloor>a / w\<rfloor> \<le> w * (a / w)" using fl(1) w by (intro mult_left_mono) auto
  then have hi: "w * real i \<le> a + w" using w ri by (simp add: algebra_simps)
  have "w * real i < 700 * (exp (r / 1127) - 1)" using hi wide by (simp add: a_def algebra_simps)
  then have "i < n" using top w by (metis less_le_trans mult_less_cancel_left_pos of_nat_less_iff)
  moreover have "exp (l / 1127) < 1 + w * real i / 700" using lo by (simp add: a_def field_simps)
  moreover have "1 + w * real i / 700 < exp (r / 1127)"
    using \<open>w * real i < 700 * (exp (r / 1127) - 1)\<close> by (simp add: field_simps)
  moreover have "0 < 1 + w * real i / 700" using w by (simp add: add_pos_nonneg)
  ultimately have "i < n \<and> l / 1127 < ln (1 + w * real i / 700) \<and> ln (1 + w * real i / 700) < r / 1127"
    by (metis exp_gt_zero ln_exp ln_less_cancel_iff)
  then show ?thesis by (auto simp: in_band_def MelScale_def)
qed

lemma MelScale_20_bounds: "0 \<le> MelScale 20 \<and> MelScale 20 \<le> 1127 / 35"
proof -
  have "ln (1 + 20 / 700 :: real) \<le> 20 / 700" by (rule ln_add_one_self_le_self) simp
  moreover have "0 \<le> ln (1 + 20 / 700 :: real)" by simp
  ultimately show ?thesis by (simp add: MelScale_def)
qed

lemma MelScale_7600_lower: "2254 \<le> MelScale 7600"
proof -
  have "exp (2 :: real) = exp 1 * exp 1" by (simp flip: exp_add)
  also have "\<dots> \<le> 3 * 3" using exp_le by (intro mult_mono) auto
  finally have "exp 2 \<le> 1 + 7600 / (700 :: real)" by simp
  then have "2 \<le> ln (1 + 7600 / (700 :: real))" by (simp add: ln_ge_iff)
  then show ?thesis by (simp add: MelScale_def)
qed

lemma exp_band_split:
  fixes L d :: real
  shows "exp ((L + real (b + 2) * d) / 1127) = exp ((L + real b * d) / 1127) * exp (2 * d / 1127)"
proof -
  have "(L + real (b + 2) * d) / 1127 = (L + real b * d) / 1127 + 2 * d / 1127"
    by (simp add: distrib_right add_divide_distrib)
  then show ?thesis by (simp only: exp_add)
qed
lemma exp_band_gap:
  fixes L d :: real
  assumes L: "0 \<le> L + real b * d" and d0: "0 \<le> d"
  shows "2 * d / 1127 \<le> exp ((L + real (b + 2) * d) / 1127) - exp ((L + real b * d) / 1127)"
proof -
  let ?l = "L + real b * d" and ?r = "L + real (b + 2) * d"
  have a: "2 * d / 1127 \<le> exp (2 * d / 1127) - 1" using exp_ge_add_one_self[of "2 * d / 1127"] by linarith
  have b: "1 \<le> exp (?l / 1127)" using L by simp
  have c: "0 \<le> exp (2 * d / 1127) - 1" using a d0 by linarith
  have e: "exp (?r / 1127) - exp (?l / 1127) = exp (?l / 1127) * (exp (2 * d / 1127) - 1)"
    unfolding exp_band_split by (simp add: algebra_simps)
  have "2 * d / 1127 \<le> 1 * (exp (2 * d / 1127) - 1)" using a by simp
  also have "\<dots> \<le> exp (?l / 1127) * (exp (2 * d / 1127) - 1)"
    using b c by (rule mult_right_mono)
  finally show ?thesis by (simp only: e)
qed
text \<open>At 16 kHz with a 512-point transform every one of the 80 filters covers an FFT bin.\<close>

lemma mel_init_16000:
  assumes "length buf = 256"
  shows "\<exists>bs. mel_init 16000 512 buf = Inr bs"
proof -
  define L where "L = MelScale 20"
  define H where "H = MelScale 7600"
  define d where "d = (H - L) / 81"
  have L: "0 \<le> L" "L \<le> 1127 / 35" using MelScale_20_bounds by (simp_all add: L_def)
  have H: "2254 \<le> H" using MelScale_7600_lower by (simp add: H_def)
  have d: "1127 * 69 / (35 * 81) \<le> d" using L H by (simp add: d_def field_simps)
  have H1: "exp (H / 1127) = 1 + 7600 / 700"
    by (simp add: H_def MelScale_def)
  have band: "\<exists>i<256. in_band (125 / 4) (L + real b * d) (L + real (b + 2) * d) i" if b: "b < 80" for b
  proof (rule in_band_exists)
    let ?l = "L + real b * d" and ?r = "L + real (b + 2) * d"
    have d0: "0 \<le> d" using d by simp
    show l0: "0 \<le> ?l" using L d0 by simp
    have "2 * d / 1127 \<le> exp (?r / 1127) - exp (?l / 1127)" using l0 d0 by (rule exp_band_gap)
    then show "125 / 4 < 700 * (exp (?r / 1127) - exp (?l / 1127))" using d by simp
    have "?r \<le> L + 81 * d" using b d0 by (simp add: mult_right_mono)
    then have "exp (?r / 1127) \<le> exp (H / 1127)" by (simp add: d_def)
    then show "700 * (exp (?r / 1127) - 1) \<le> 125 / 4 * real 256" using H1 by simp
  qed simp
  have "mel_init 16000 512 buf =
      mel_bins_loop (125 / 4) L d 256 [0..<NB_MEL_BINS] buf"
    by (simp add: mel_init_unfold L_def H_def d_def NB_MEL_BINS_def)
  moreover have "\<forall>b \<in> set [0..<NB_MEL_BINS].
      \<exists>i<256. in_band (125 / 4) (L + real b * d) (L + real (b + 2) * d) i"
    using band by (simp add: NB_MEL_BINS_def)
  ultimately show ?thesis using mel_bins_loop_succeeds assms by simp
qed

subsection \<open>Properties\<close>

text \<open>
  C37. The filter tables built by \<open>mel_init\<close> do not depend on the content of the
  uninitialised, never-cleared scratch array \<open>this_bin\<close>: every weight a filter
  stores was written while scanning that same filter.
\<close>

theorem mel_init_scratch_independent:
  assumes "0 \<le> sample_freq" and "0 < window_length_padded"
    and "length b1 = nat (window_length_padded div 2)"
    and "length b2 = nat (window_length_padded div 2)"
  shows "mel_init sample_freq window_length_padded b1 = mel_init sample_freq window_length_padded b2"
proof -
  have "0 \<le> sample_freq / real_of_int window_length_padded" using assms(1,2) by simp
  then show ?thesis
    unfolding mel_init_unfold using assms(3,4) by (rule mel_bins_loop_scratch)
qed

theorem mel_init_scratch_independent_witness:
  "mel_init 16000 512 (replicate 256 0) = mel_init 16000 512 (replicate 256 1)"
  using mel_init_scratch_independent[of 16000 512 "replicate 256 0" "replicate 256 1"] by simp

text \<open>
  C38. \<open>fbank_compute\<close> yields one value per filter, and no value lies below
  \<open>ln FLT_EPSILON\<close>: the floor of the energy guards the logarithm.
\<close>

theorem fbank_compute_floor:
  "length (fbank_compute s samples) = length (bins s) \<and>
   (\<forall>v \<in> set (fbank_compute s samples). ln FLT_EPSILON \<le> v)"
  using fbank_compute_ge by simp

theorem fbank_compute_floor_witness:
  "length (fbank_compute \<lparr>fb_size = 2, bins = [\<lparr>bin_offset = 0, bin_scale = [1]\<rparr>]\<rparr> [0, 0]) = 1 \<and>
   ln FLT_EPSILON \<le> hd (fbank_compute \<lparr>fb_size = 2, bins = [\<lparr>bin_offset = 0, bin_scale = [1]\<rparr>]\<rparr> [0, 0])"
proof -
  let ?s = "\<lparr>fb_size = 2, bins = [\<lparr>bin_offset = 0, bin_scale = [1]\<rparr>]\<rparr>"
  have f: "length (fbank_compute ?s [0, 0]) = length (bins ?s) \<and>
      (\<forall>v \<in> set (fbank_compute ?s [0, 0]). ln FLT_EPSILON \<le> v)"
    by (rule fbank_compute_floor)
  then have "length (fbank_compute ?s [0, 0]) = 1" by simp
  then have "fbank_compute ?s [0, 0] \<noteq> []" by (cases "fbank_compute ?s [0, 0]") auto
  then have "hd (fbank_compute ?s [0, 0]) \<in> set (fbank_compute ?s [0, 0])" by simp
  with f show ?thesis by simp
qed

text \<open>
  C39. On a silent window (all samples zero) with well-formed filter tables, every
  feature is \<open>ln FLT_EPSILON\<close>.
\<close>

theorem fbank_compute_silent_window:
  assumes "fbank_wf s" and "\<forall>v \<in> set samples. v = 0"
  shows "fbank_compute s samples = replicate (length (bins s)) (ln FLT_EPSILON)"
  using assms by (rule fbank_compute_silence)

theorem fbank_compute_silent_window_witness:
  "fbank_compute \<lparr>fb_size = 4, bins = [\<lparr>bin_offset = 1, bin_scale = [1]\<rparr>]\<rparr> [0, 0, 0, 0] =
   [ln FLT_EPSILON]"
  using fbank_compute_silent_window[of "\<lparr>fb_size = 4, bins = [\<lparr>bin_offset = 1, bin_scale = [1]\<rparr>]\<rparr>"
      "[0, 0, 0, 0]"]
  by (simp add: fbank_wf_def)

text \<open>
  C40. The power spectrum's shortcut (real part only at bin 0 and at the Nyquist bin)
  is exact for an even transform size: every bin holds \<open>|X_k|\<^sup>2\<close> of the transform.
\<close>

theorem power_spectrum_exact:
  assumes "length x = 2 * half_size" and "k \<le> half_size"
  shows "power_spectrum half_size (map (rdft x) [0..<half_size + 1]) ! k = (cmod (rdft x k))\<^sup>2"
  using assms by (rule power_spectrum_cmod)

theorem power_spectrum_exact_witness:
  "power_spectrum 1 (map (rdft [1, 0]) [0..<1 + 1]) ! 1 = (cmod (rdft [1, 0] 1))\<^sup>2"
  using power_spectrum_exact[of "[1, 0]" 1 1] by simp

text \<open>
  C23. At 16 kHz with a 512-point transform, \<open>mel_init\<close> passes
  its assert for all 80 filters: every mel band (of width about 68 mel) contains an
  FFT bin, and every stored run is non-empty, inside the 256 bins, with weights in
  \<open>(0, 1]\<close>.
\<close>

theorem mel_init_16k_all_filters:
  assumes "length buf = 256"
  shows "\<exists>bs. mel_init 16000 512 buf = Inr bs \<and> length bs = NB_MEL_BINS \<and>
    (\<forall>b \<in> set bs. 0 \<le> bin_offset b \<and> nat (bin_offset b) + length (bin_scale b) \<le> 256 \<and>
       bin_scale b \<noteq> [] \<and> (\<forall>x \<in> set (bin_scale b). 0 < x \<and> x \<le> 1))"
proof -
  obtain bs where bs: "mel_init 16000 512 buf = Inr bs" using mel_init_16000[OF assms] by blast
  then show ?thesis using mel_init_ok[OF bs] assms by simp
qed

theorem mel_init_16k_all_filters_witness:
  "\<exists>bs. mel_init 16000 512 (replicate 256 0) = Inr bs \<and> length bs = 80"
  using mel_init_16k_all_filters[of "replicate 256 0"] by (auto simp: NB_MEL_BINS_def)

end
