(* ===== verification/KNF_Engine.thy ===== *)
theory KNF_Engine
  imports KNF_Frames KNF_Window KNF_Fbank
begin

text \<open>
  The streaming engine of \<open>src/knf.c\<close> (lines 313--458): the \<open>KNF\<close> state,
  \<open>knf_create\<close>, \<open>compute_features\<close> and the public operations.  The remainder
  buffer is the list \<open>waveform_remainder\<close> (its C size is its length); the scratch
  \<open>window_buffer\<close> is rewritten for every frame and is not state.  \<open>log2_int\<close>
  and \<open>ceil_log2_int\<close> work on \<open>unsigned int\<close>, modelled as \<open>32 word\<close>.  The
  \<open>int\<close> shift \<open>1 << ceil_log2_int(...)\<close> is taken on a signed 32-bit word.  The
  float products \<open>sample_rate * 0.010f\<close> and \<open>sample_rate * 0.025f\<close> are taken
  over \<open>real\<close> and truncated towards zero as the C conversion to \<open>int\<close> does.
\<close>

unbundle bit_operations_syntax

record knf =
  sample_rate :: int
  window_shift :: int
  window_size :: int
  window_size_padded :: int
  frames :: "feature frames"
  window :: "real list"
  fbank :: fbank
  input_finished :: bool
  waveform_offset :: int
  waveform_remainder :: "real list"

text \<open>\<open>while (x >>= 1) y++;\<close>\<close>

function log2_int_loop :: "32 word \<Rightarrow> int \<Rightarrow> int" where
  "log2_int_loop x y =
     (let x' = drop_bit 1 x in if x' \<noteq> 0 then log2_int_loop x' (y + 1) else y)"
  by pat_completeness auto
termination
proof (relation "measure (\<lambda>(x, _). unat x)")
  fix x :: "32 word" and y x'
  assume "x' = drop_bit 1 x" "x' \<noteq> 0"
  then have "x \<noteq> 0" by auto
  then have "0 < unat x" by (simp add: unat_gt_0)
  then have "unat x div 2 < unat x" by simp
  with \<open>x' = drop_bit 1 x\<close> show "((x', y + 1), x, y) \<in> measure (\<lambda>(x, _). unat x)"
    by (simp add: drop_bit_eq_div unat_div)
qed auto

declare log2_int_loop.simps [simp del]

definition log2_int :: "32 word \<Rightarrow> int" where
  "log2_int x = log2_int_loop x 0"

definition ceil_log2_int :: "32 word \<Rightarrow> int" where
  "ceil_log2_int x = log2_int (push_bit 1 (x - 1))"

text \<open>The C conversion of a \<open>float\<close> to \<open>int\<close> truncates towards zero.\<close>

definition float_to_int :: "real \<Rightarrow> int" where
  "float_to_int x = (if 0 \<le> x then \<lfloor>x\<rfloor> else \<lceil>x\<rceil>)"

definition knf_create :: "int \<Rightarrow> int \<Rightarrow> knf_error + knf" where
  "knf_create sample_rate' feature_dim =
     (let window_shift' = float_to_int (real_of_int sample_rate' * 0.010);
          window_size' = float_to_int (real_of_int sample_rate' * 0.025);
          window_size_padded' = sint (push_bit (nat (ceil_log2_int (word_of_int window_size'))) (1 :: 32 word))
      in if feature_dim \<noteq> int NB_MEL_BINS then Inl BadFeatureDim
         else case fbank_init sample_rate' window_size_padded'
                     (replicate (nat (window_size_padded' div 2)) 0) of
                Inl e \<Rightarrow> Inl e
              | Inr fb \<Rightarrow> Inr \<lparr>sample_rate = sample_rate', window_shift = window_shift',
                    window_size = window_size', window_size_padded = window_size_padded',
                    frames = frames_init, window = window_init window_size', fbank = fb,
                    input_finished = False, waveform_offset = 0, waveform_remainder = []\<rparr>)"

text \<open>The frame loop of \<open>compute_features\<close> (lines 385--394).\<close>

function compute_loop :: "knf \<Rightarrow> int \<Rightarrow> int \<Rightarrow> knf_error + knf" where
  "compute_loop s index num_frames_new =
     (if index < num_frames_new then
        (case window_extract (window s) (waveform_offset s) (waveform_remainder s)
                (int (length (waveform_remainder s))) index (window_shift s) (window_size s) of
           Inl e \<Rightarrow> Inl e
         | Inr w \<Rightarrow>
             let window_buffer = w @ replicate (nat (window_size_padded s - window_size s)) 0;
                 feature = fbank_compute (fbank s) window_buffer
             in compute_loop (s\<lparr>frames := frames_push (frames s) feature\<rparr>) (index + 1) num_frames_new)
      else Inr s)"
  by pat_completeness auto
termination
  by (relation "measure (\<lambda>(_, index, n). nat (n - index))") auto

declare compute_loop.simps [simp del]

text \<open>Discarding the samples no future frame needs (lines 396--419).\<close>

definition trim_remainder :: "knf \<Rightarrow> int \<Rightarrow> knf" where
  "trim_remainder s num_frames_new =
     (let first_sample_of_next_frame =
            calc_first_sample num_frames_new (window_shift s) (window_size s);
          samples_to_discard = first_sample_of_next_frame - waveform_offset s
      in if samples_to_discard > 0 then
           (let new_num_samples = int (length (waveform_remainder s)) - samples_to_discard
            in if new_num_samples \<le> 0
               then s\<lparr>waveform_offset := waveform_offset s + int (length (waveform_remainder s)),
                      waveform_remainder := []\<rparr>
               else s\<lparr>waveform_remainder := drop (nat samples_to_discard) (waveform_remainder s),
                      waveform_offset := waveform_offset s + samples_to_discard\<rparr>)
         else s)"

definition compute_features :: "knf \<Rightarrow> knf_error + knf" where
  "compute_features s =
     (let num_frames_old = frames_size (frames s);
          num_samples_total = waveform_offset s + int (length (waveform_remainder s));
          num_frames_new = calc_num_frames num_samples_total (window_shift s) (window_size s)
                             (input_finished s)
      in if \<not> (num_frames_new \<ge> num_frames_old) then Inl FramesDecrease
         else case compute_loop s num_frames_old num_frames_new of
                Inl e \<Rightarrow> Inl e
              | Inr s' \<Rightarrow> Inr (trim_remainder s' num_frames_new))"

definition knf_accept_waveform :: "knf \<Rightarrow> int \<Rightarrow> real list \<Rightarrow> knf_error + knf" where
  "knf_accept_waveform s sample_rate' samples =
     (if sample_rate' \<noteq> sample_rate s then Inl RateMismatch
      else compute_features (s\<lparr>waveform_remainder := waveform_remainder s @ samples\<rparr>))"

definition knf_input_finished :: "knf \<Rightarrow> knf_error + knf" where
  "knf_input_finished s = compute_features (s\<lparr>input_finished := True\<rparr>)"

definition knf_num_frames_ready :: "knf \<Rightarrow> int" where
  "knf_num_frames_ready s = frames_size (frames s)"

definition knf_get_frame :: "knf \<Rightarrow> int \<Rightarrow> knf_error + feature" where
  "knf_get_frame s index = frames_get (frames s) index"

definition knf_is_input_finished :: "knf \<Rightarrow> bool" where
  "knf_is_input_finished s = input_finished s"

definition knf_pop :: "knf \<Rightarrow> int \<Rightarrow> knf" where
  "knf_pop s n = s\<lparr>frames := frames_pop (frames s) n\<rparr>"

text \<open>The calls a client makes, and a run of them that stops at the first abort.\<close>

datatype knf_call = AcceptWaveform int "real list" | InputFinished | Pop int

fun knf_step :: "knf \<Rightarrow> knf_call \<Rightarrow> knf_error + knf" where
  "knf_step s (AcceptWaveform sr samples) = knf_accept_waveform s sr samples"
| "knf_step s InputFinished = knf_input_finished s"
| "knf_step s (Pop n) = Inr (knf_pop s n)"

fun knf_run :: "knf \<Rightarrow> knf_call list \<Rightarrow> knf_error + knf" where
  "knf_run s [] = Inr s"
| "knf_run s (c # cs) = (case knf_step s c of Inl e \<Rightarrow> Inl e | Inr s' \<Rightarrow> knf_run s' cs)"


subsection \<open>The specification of the frame stream\<close>

text \<open>
  What the engine promises: frame \<open>k\<close> is computed from the whole stream \<open>xs\<close> seen
  so far, its window taken with the stream mirrored at both of its ends, whatever
  chunks the stream arrived in and whatever has been discarded.
\<close>

definition stream_window :: "knf \<Rightarrow> real list \<Rightarrow> int \<Rightarrow> real list" where
  "stream_window s xs k =
     map (\<lambda>i. xs ! nat (the (reflect_index (int (length xs))
                 (calc_first_sample k (window_shift s) (window_size s) + int i))))
         [0..<nat (window_size s)]"

definition stream_frame :: "knf \<Rightarrow> real list \<Rightarrow> int \<Rightarrow> feature" where
  "stream_frame s xs k =
     fbank_compute (fbank s)
       (window_process (window s) (stream_window s xs k) @
        replicate (nat (window_size_padded s - window_size s)) 0)"

definition stream_frames :: "knf \<Rightarrow> real list \<Rightarrow> int \<Rightarrow> int \<Rightarrow> feature list" where
  "stream_frames s xs lo hi = map (\<lambda>i. stream_frame s xs (lo + int i)) [0..<nat (hi - lo)]"

text \<open>The configuration every engine built by \<open>knf_create\<close> has (see \<open>knf_create_cfg\<close>).\<close>

definition knf_cfg_ok :: "knf \<Rightarrow> bool" where
  "knf_cfg_ok s \<longleftrightarrow> 0 < window_shift s \<and> 2 * window_shift s \<le> window_size s"

text \<open>
  The engine invariant relative to the stream \<open>xs\<close> accepted so far: the remainder is
  the suffix of the stream from \<open>waveform_offset\<close>, the frames produced are those
  \<open>calc_num_frames\<close> determines, the retained ones are the specification's frames,
  and no sample a future frame needs has been discarded.
\<close>

definition knf_inv :: "real list \<Rightarrow> knf \<Rightarrow> bool" where
  "knf_inv xs s \<longleftrightarrow> knf_cfg_ok s \<and>
     0 \<le> waveform_offset s \<and> waveform_offset s \<le> int (length xs) \<and>
     waveform_remainder s = drop (nat (waveform_offset s)) xs \<and>
     frames_size (frames s) =
       calc_num_frames (int (length xs)) (window_shift s) (window_size s) (input_finished s) \<and>
     0 \<le> base_index (frames s) \<and>
     root (frames s) = stream_frames s xs (base_index (frames s)) (frames_size (frames s)) \<and>
     waveform_offset s \<le>
       max 0 (calc_first_sample (frames_size (frames s)) (window_shift s) (window_size s))"

text \<open>A client's call sequence respects the protocol when every chunk has the engine's
  sample rate and no chunk follows \<open>knf_input_finished\<close>.\<close>

fun knf_calls_ok :: "int \<Rightarrow> bool \<Rightarrow> knf_call list \<Rightarrow> bool" where
  "knf_calls_ok sr fin [] = True"
| "knf_calls_ok sr fin (AcceptWaveform r ys # cs) = (r = sr \<and> \<not> fin \<and> knf_calls_ok sr fin cs)"
| "knf_calls_ok sr fin (InputFinished # cs) = knf_calls_ok sr True cs"
| "knf_calls_ok sr fin (Pop n # cs) = knf_calls_ok sr fin cs"

fun knf_calls_samples :: "knf_call list \<Rightarrow> real list" where
  "knf_calls_samples [] = []"
| "knf_calls_samples (AcceptWaveform r ys # cs) = ys @ knf_calls_samples cs"
| "knf_calls_samples (InputFinished # cs) = knf_calls_samples cs"
| "knf_calls_samples (Pop n # cs) = knf_calls_samples cs"

fun knf_calls_finish :: "bool \<Rightarrow> knf_call list \<Rightarrow> bool" where
  "knf_calls_finish fin [] = fin"
| "knf_calls_finish fin (InputFinished # cs) = knf_calls_finish True cs"
| "knf_calls_finish fin (_ # cs) = knf_calls_finish fin cs"

definition knf_params :: "knf \<Rightarrow> int \<times> int \<times> int \<times> int \<times> real list \<times> fbank" where
  "knf_params s = (sample_rate s, window_shift s, window_size s, window_size_padded s, window s, fbank s)"



text \<open>
  The engines a client can reach through the API of \<open>src/knf.h\<close> while respecting its
  protocol: created with a non-negative rate, fed chunks at the engine's rate only
  before \<open>knf_input_finished\<close>, finished any number of times, popped at will.  The
  list is the stream accepted so far.
\<close>

inductive knf_reach :: "real list \<Rightarrow> knf \<Rightarrow> bool" where
  create: "knf_create sr fd = Inr s \<Longrightarrow> 0 \<le> sr \<Longrightarrow> knf_reach [] s"
| accept: "knf_reach xs s \<Longrightarrow> \<not> knf_is_input_finished s \<Longrightarrow>
     knf_accept_waveform s (sample_rate s) ys = Inr s' \<Longrightarrow> knf_reach (xs @ ys) s'"
| finish: "knf_reach xs s \<Longrightarrow> knf_input_finished s = Inr s' \<Longrightarrow> knf_reach xs s'"
| pop: "knf_reach xs s \<Longrightarrow> knf_reach xs (knf_pop s n)"

subsection \<open>Rounding the window up to a power of two\<close>

lemma log2_int_loop_bounds:
  "x \<noteq> 0 \<Longrightarrow> y \<le> log2_int_loop x y \<and> 2 ^ nat (log2_int_loop x y - y) \<le> unat x \<and>
     unat x < 2 ^ (nat (log2_int_loop x y - y) + 1)"
proof (induction x y rule: log2_int_loop.induct)
  case (1 x y)
  have "unat (drop_bit 1 x) = drop_bit 1 (unat x)" by (rule unat_drop_bit_eq)
  then have d: "unat (drop_bit 1 x) = unat x div 2" by (simp add: drop_bit_eq_div)
  show ?case
  proof (cases "drop_bit 1 x = 0")
    case True
    then have "unat x < 2" using d by simp
    moreover have "0 < unat x" using "1.prems" by (simp add: unat_gt_0)
    ultimately have "unat x = 1" by simp
    then show ?thesis using True by (simp add: log2_int_loop.simps[of x y])
  next
    case False
    let ?r = "log2_int_loop (drop_bit 1 x) (y + 1)"
    have IH: "y + 1 \<le> ?r \<and> 2 ^ nat (?r - (y + 1)) \<le> unat x div 2 \<and> unat x div 2 < 2 ^ (nat (?r - (y + 1)) + 1)"
      using "1.IH"[OF refl False False] d by simp
    have eq: "log2_int_loop x y = ?r" using False by (simp add: log2_int_loop.simps[of x y])
    have ge: "0 \<le> ?r - (y + 1)" using IH by linarith
    have n: "nat (?r - y) = nat (?r - (y + 1)) + 1"
      using nat_add_distrib[OF ge, of 1] by (simp add: algebra_simps)
    show ?thesis using IH unfolding eq n by auto
  qed
qed

lemma unat_push_bit_1:
  assumes "unat w < 2 ^ 31"
  shows "unat (push_bit 1 (w :: 32 word)) = 2 * unat w"
proof -
  have "unat w * unat (2 :: 32 word) < 2 ^ LENGTH(32)" using assms by simp
  then have "unat (w * 2) = unat w * unat (2 :: 32 word)" by (simp only: unat_mult_lem)
  then show ?thesis by (simp add: push_bit_eq_mult)
qed

lemma ceil_log2_int_bounds:
  assumes "1 \<le> unat x" "unat x \<le> 2 ^ 31"
  shows "0 \<le> ceil_log2_int x \<and> unat x \<le> 2 ^ nat (ceil_log2_int x) \<and>
         (2 \<le> unat x \<longrightarrow> 2 ^ nat (ceil_log2_int x) < 2 * unat x)"
proof (cases "unat x = 1")
  case True
  then have "x = 1" by (metis unat_1 word_unat_eq_iff)
  then show ?thesis by (simp add: ceil_log2_int_def log2_int_def log2_int_loop.simps)
next
  case False
  let ?v = "push_bit 1 (x - 1)"
  have x0: "x \<noteq> 0" using assms(1) by auto
  have m1: "unat (x - 1) = unat x - 1" using x0 by (rule unat_minus_one)
  then have "unat (x - 1) < 2 ^ 31" using assms by simp
  then have "unat ?v = 2 * unat (x - 1)" by (rule unat_push_bit_1)
  then have v: "unat ?v = 2 * (unat x - 1)" by (simp only: m1)
  then have "?v \<noteq> 0" using False assms(1) by auto
  then have b: "0 \<le> log2_int ?v \<and> 2 ^ nat (log2_int ?v) \<le> unat ?v \<and> unat ?v < 2 ^ (nat (log2_int ?v) + 1)"
    using log2_int_loop_bounds[of ?v 0] by (simp add: log2_int_def)
  show ?thesis using b v False assms(1) by (auto simp: ceil_log2_int_def)
qed

lemma sint_push_bit_1:
  assumes "c < 31"
  shows "sint (push_bit c (1::32 word)) = 2 ^ c"
proof -
  have w: "push_bit c (1::32 word) = word_of_int (2 ^ c)" by (simp add: push_bit_of_1)
  have "(2::int) ^ c < 2 ^ 31" using assms by (intro power_strict_increasing) auto
  then have t: "take_bit 31 ((2::int) ^ c) = 2 ^ c" using assms by (simp add: take_bit_int_eq_self_iff)
  have "\<not> bit ((2::int) ^ c) 31" using assms by (simp add: bit_exp_iff)
  then have "signed_take_bit 31 ((2::int) ^ c) = 2 ^ c"
    using t by (simp add: signed_take_bit_eq_if_positive)
  moreover have "sint (word_of_int (2 ^ c) :: 32 word) = signed_take_bit 31 ((2::int) ^ c)"
    by (simp only: sint_sbintrunc') simp
  ultimately show ?thesis using w by simp
qed

lemma padded_size_pow2:
  assumes lo: "1 \<le> W" and hi: "W < 2 ^ 30"
  shows "sint (push_bit (nat (ceil_log2_int (word_of_int W))) (1 :: 32 word)) =
           2 ^ nat (ceil_log2_int (word_of_int W)) \<and>
         W \<le> 2 ^ nat (ceil_log2_int (word_of_int W)) \<and>
         2 ^ nat (ceil_log2_int (word_of_int W)) < 2 * W"
proof -
  let ?c = "ceil_log2_int (word_of_int W)"
  have u: "unat (word_of_int W :: 32 word) = nat W"
  proof -
    have "take_bit LENGTH(32) W = W" using lo hi by (simp add: take_bit_int_eq_self)
    then show ?thesis by (simp only: unat_eq_nat_uint uint_word_of_int_eq)
  qed
  have b: "0 \<le> ?c \<and> nat W \<le> 2 ^ nat ?c \<and> (2 \<le> nat W \<longrightarrow> 2 ^ nat ?c < 2 * nat W)"
    using ceil_log2_int_bounds[of "word_of_int W :: 32 word"] u lo hi by simp
  have b': "W \<le> 2 ^ nat ?c \<and> 2 ^ nat ?c < 2 * W"
  proof (cases "W = 1")
    case True
    then have "?c = 0" by (simp add: ceil_log2_int_def log2_int_def log2_int_loop.simps)
    then show ?thesis using True by simp
  next
    case False
    then have n1: "nat W \<le> 2 ^ nat ?c" and n2: "(2::nat) ^ nat ?c < 2 * nat W" using b lo by auto
    have "int (nat W) \<le> int (2 ^ nat ?c)" "int (2 ^ nat ?c) < int (2 * nat W)"
      using n1 n2 by (simp_all only: of_nat_le_iff of_nat_less_iff)
    then show ?thesis using lo by simp
  qed
  then have "(2::int) ^ nat ?c < 2 ^ 31" using hi by simp
  then have "nat ?c < 31" using power_strict_increasing_iff[of "2::int" "nat ?c" 31] by simp
  then have "sint (push_bit (nat ?c) (1 :: 32 word)) = 2 ^ nat ?c" by (rule sint_push_bit_1)
  then show ?thesis using b' by simp
qed

subsection \<open>Creation\<close>

lemma knf_create_Inr:
  assumes "knf_create sr fd = Inr s"
  shows "fd = int NB_MEL_BINS \<and> window_shift s = float_to_int (real_of_int sr * 0.010) \<and>
    window_size s = float_to_int (real_of_int sr * 0.025) \<and>
    window_size_padded s = sint (push_bit (nat (ceil_log2_int (word_of_int (window_size s)))) (1 :: 32 word)) \<and>
    fbank_init sr (window_size_padded s) (replicate (nat (window_size_padded s div 2)) 0) = Inr (fbank s) \<and>
    sample_rate s = sr \<and> frames s = frames_init \<and> window s = window_init (window_size s) \<and>
    \<not> input_finished s \<and> waveform_offset s = 0 \<and> waveform_remainder s = []"
  using assms by (auto simp: knf_create_def Let_def split: if_splits sum.splits)

lemma float_to_int_shift_size:
  assumes "0 \<le> r"
  shows "2 * float_to_int (r * 0.010) \<le> float_to_int (r * 0.025)"
proof -
  have "real_of_int (2 * \<lfloor>r * 0.010\<rfloor>) \<le> r * 0.025" using assms
    by (simp add: field_simps) linarith
  then show ?thesis using assms by (simp add: float_to_int_def le_floor_iff)
qed

lemma knf_create_cfg_ok:
  assumes "knf_create sr fd = Inr s" "0 \<le> sr"
  shows "knf_cfg_ok s \<and> 840 < sr"
proof -
  have c: "fbank_init sr (window_size_padded s) (replicate (nat (window_size_padded s div 2)) 0) = Inr (fbank s)"
    using knf_create_Inr[OF assms(1)] by blast
  have "840 < sr"
  proof (rule ccontr)
    assume "\<not> 840 < sr"
    then show False using c assms(2) mel_init_low_rate[of "real_of_int sr"]
      by (simp add: fbank_init_def)
  qed
  then have "0 < float_to_int (real_of_int sr * 0.010)"
    by (simp add: float_to_int_def le_floor_iff)
  then show ?thesis using knf_create_Inr[OF assms(1)] float_to_int_shift_size[of "real_of_int sr"] assms(2) \<open>840 < sr\<close>
    by (simp add: knf_cfg_ok_def)
qed

lemma knf_create_inv:
  assumes "knf_create sr fd = Inr s" "0 \<le> sr"
  shows "knf_inv [] s"
proof -
  have cfg: "knf_cfg_ok s" using knf_create_cfg_ok[OF assms] by simp
  then have "window_shift s div 2 div window_shift s = 0"
    by (intro div_pos_pos_trivial) (auto simp: knf_cfg_ok_def)
  then have "calc_num_frames 0 (window_shift s) (window_size s) False = 0"
    using cfg by (simp add: knf_cfg_ok_def calc_num_frames_closed Let_def)
  then show ?thesis using knf_create_Inr[OF assms(1)] cfg
    by (simp add: knf_inv_def stream_frames_def)
qed

lemma ceil_log2_int_400: "ceil_log2_int 400 = 9"
  by (simp add: ceil_log2_int_def log2_int_def log2_int_loop.simps)

lemma knf_create_16000:
  "\<exists>s. knf_create 16000 80 = Inr s \<and> sample_rate s = 16000 \<and> window_shift s = 160 \<and>
     window_size s = 400 \<and> window_size_padded s = 512"
proof -
  obtain bs where bs: "mel_init 16000 512 (replicate 256 0) = Inr bs"
    using mel_init_16000[of "replicate 256 0"] by auto
  have sh: "float_to_int 160 = 160" by (simp add: float_to_int_def)
  have ws: "float_to_int 400 = 400" by (simp add: float_to_int_def)
  have "fbank_init 16000 512 (replicate 256 0) = Inr \<lparr>fb_size = 512, bins = bs\<rparr>"
    using bs by (simp add: fbank_init_def)
  moreover have "ceil_log2_int (word_of_int 400) = 9" using ceil_log2_int_400 by simp
  ultimately show ?thesis
    by (simp add: knf_create_def Let_def sh ws ceil_log2_int_400 NB_MEL_BINS_def)
qed


subsection \<open>Properties\<close>

text \<open>
  C17. An engine built by \<open>knf_create\<close> from a non-negative rate
  satisfies the stream invariant for the empty stream: no frame, an empty remainder,
  a positive shift at most half the window.  Creation succeeds only for 80 features
  and a rate above 840 Hz.
\<close>

theorem knf_create_establishes:
  assumes "knf_create sr fd = Inr s" and "0 \<le> sr"
  shows "knf_inv [] s \<and> 840 < sr \<and> fd = 80 \<and> knf_num_frames_ready s = 0 \<and>
    \<not> knf_is_input_finished s"
  using knf_create_inv[OF assms] knf_create_cfg_ok[OF assms] knf_create_Inr[OF assms(1)]
  by (simp add: NB_MEL_BINS_def knf_num_frames_ready_def knf_is_input_finished_def)

theorem knf_create_establishes_witness:
  "\<exists>s. knf_create 16000 80 = Inr s \<and> knf_inv [] s \<and> knf_num_frames_ready s = 0"
proof -
  obtain s where s: "knf_create 16000 80 = Inr s" using knf_create_16000 by blast
  then show ?thesis using knf_create_establishes[OF s] by auto
qed

text \<open>
  C18. The asserts of creation and of \<open>knf_accept_waveform\<close> are
  error values: a feature dimension other than 80 is \<open>BadFeatureDim\<close>; a rate of at
  most 840 Hz leaves the first mel filter without an FFT bin (its band is empty or
  inverted), which is \<open>EmptyMelBin\<close>; a chunk at another rate is \<open>RateMismatch\<close>.
\<close>

theorem knf_create_errors:
  "(fd \<noteq> 80 \<longrightarrow> knf_create sr fd = Inl BadFeatureDim) \<and>
   (0 \<le> sr \<and> sr \<le> 840 \<longrightarrow> knf_create sr 80 = Inl EmptyMelBin) \<and>
   (sr' \<noteq> sample_rate s \<longrightarrow> knf_accept_waveform s sr' ys = Inl RateMismatch)"
proof (intro conjI impI)
  assume "fd \<noteq> 80"
  then show "knf_create sr fd = Inl BadFeatureDim" by (simp add: knf_create_def Let_def NB_MEL_BINS_def)
next
  assume "0 \<le> sr \<and> sr \<le> 840"
  then have "mel_init (real_of_int sr) p buf = Inl EmptyMelBin" for p buf
    by (intro mel_init_low_rate) auto
  then show "knf_create sr 80 = Inl EmptyMelBin"
    by (simp add: knf_create_def Let_def NB_MEL_BINS_def fbank_init_def)
next
  assume "sr' \<noteq> sample_rate s"
  then show "knf_accept_waveform s sr' ys = Inl RateMismatch" by (simp add: knf_accept_waveform_def)
qed

theorem knf_create_errors_witness:
  "\<exists>s. knf_create 16000 80 = Inr s \<and> knf_create 16000 81 = Inl BadFeatureDim \<and>
     knf_create 800 80 = Inl EmptyMelBin \<and> knf_accept_waveform s 8000 [] = Inl RateMismatch"
proof -
  obtain s where s: "knf_create 16000 80 = Inr s" "sample_rate s = 16000" using knf_create_16000 by blast
  then show ?thesis
    using knf_create_errors[where fd=81 and sr=16000 and sr'=8000 and s=s and ys="[]"]
      knf_create_errors[where fd=80 and sr=800 and sr'=8000 and s=s and ys="[]"] by auto
qed

text \<open>
  C19. At 16 kHz (the configuration of the reference scenario) creation
  succeeds with a shift of 160 samples, a window of 400 samples padded to 512, and 80
  well-formed filters.
\<close>

theorem knf_create_16k_config:
  "\<exists>s. knf_create 16000 80 = Inr s \<and> window_shift s = 160 \<and> window_size s = 400 \<and>
     window_size_padded s = 512 \<and> length (bins (fbank s)) = 80 \<and> fbank_wf (fbank s)"
proof -
  obtain s where s: "knf_create 16000 80 = Inr s" "window_shift s = 160" "window_size s = 400"
      "window_size_padded s = 512"
    using knf_create_16000 by blast
  have "fbank_init 16000 512 (replicate 256 0) = Inr (fbank s)"
    using knf_create_Inr[OF s(1)] s(4) by simp
  then have "fbank_wf (fbank s) \<and> length (bins (fbank s)) = NB_MEL_BINS"
    using fbank_init_wf[of 16000 512 "replicate 256 0" "fbank s"] by simp
  then show ?thesis using s by (auto simp: NB_MEL_BINS_def)
qed

text \<open>
  C20. For every rate a C \<open>int\<close> holds, the padded size that
  \<open>1 << ceil_log2_int(window_size)\<close> computes is the least power of two not below the
  window size, so the window always fits the transform buffer.
\<close>

theorem knf_create_padded_pow2:
  assumes c: "knf_create sr fd = Inr s" and sr: "0 \<le> sr" "sr < 2 ^ 31"
  shows "window_size s \<le> window_size_padded s \<and> window_size_padded s < 2 * window_size s \<and>
    window_size_padded s = 2 ^ nat (ceil_log2_int (word_of_int (window_size s)))"
proof -
  let ?W = "window_size s"
  have r: "840 < sr" using knf_create_cfg_ok[OF c sr(1)] by simp
  have W: "?W = \<lfloor>real_of_int sr * 0.025\<rfloor>"
    using knf_create_Inr[OF c] sr(1) by (simp add: float_to_int_def)
  have lo: "1 \<le> ?W" using W r by (simp add: le_floor_iff)
  have hi: "?W < 2 ^ 30" using W sr(2) by (simp add: floor_less_iff)
  show ?thesis using padded_size_pow2[OF lo hi] knf_create_Inr[OF c] by simp
qed

theorem knf_create_padded_pow2_witness:
  "\<exists>s. knf_create 16000 80 = Inr s \<and> window_size s \<le> window_size_padded s \<and>
     window_size_padded s < 2 * window_size s"
proof -
  obtain s where s: "knf_create 16000 80 = Inr s" using knf_create_16000 by blast
  then show ?thesis using knf_create_padded_pow2[OF s] by auto
qed



text \<open>
  C22. The shifting loop of \<open>log2_int\<close> terminates and computes the floor of
  the base-2 logarithm of its non-zero unsigned argument.
\<close>

theorem log2_int_floor:
  assumes "x \<noteq> 0"
  shows "0 \<le> log2_int x \<and> 2 ^ nat (log2_int x) \<le> unat x \<and> unat x < 2 ^ (nat (log2_int x) + 1)"
  using log2_int_loop_bounds[OF assms, of 0] by (simp add: log2_int_def)

theorem log2_int_floor_witness:
  "log2_int 798 = 9 \<and> 2 ^ 9 \<le> unat (798 :: 32 word) \<and> unat (798 :: 32 word) < 2 ^ 10"
proof -
  have "log2_int 798 = 9" by (simp add: log2_int_def log2_int_loop.simps)
  then show ?thesis using log2_int_floor[of "798 :: 32 word"] by simp
qed

end
