(* ===== verification/KNF_Stream.thy ===== *)
theory KNF_Stream
  imports KNF_Engine
begin

text \<open>
  The refinement of the engine of \<open>src/knf.c\<close> towards the stream specification
  \<open>stream_frame\<close>: extraction from the remainder buffer reads the stream's
  window, the frame loop of \<open>compute_features\<close> appends the specification's
  frames, trimming keeps the remainder a suffix of the stream, and every public
  operation preserves \<open>knf_inv\<close> and succeeds on a protocol-respecting call.
\<close>

lemma stream_window_gather:
  assumes "0 < int (length xs)"
  shows "gather_reflect xs (int (length xs)) (calc_first_sample k (window_shift s) (window_size s))
           (window_size s) = Some (stream_window s xs k)"
  using assms by (simp add: gather_reflect_eq stream_window_def)

text \<open>Extraction from the remainder buffer reads the stream's window.\<close>

lemma window_extract_stream:
  assumes off: "0 \<le> off" "off < int (length xs)"
    and fs: "off = 0 \<or> off \<le> calc_first_sample k (window_shift s) (window_size s)"
    and fit: "off = 0 \<or> calc_first_sample k (window_shift s) (window_size s) - off + window_size s
                          \<le> 2 * (int (length xs) - off)"
  shows "window_extract (window s) off (drop (nat off) xs) (int (length (drop (nat off) xs))) k
           (window_shift s) (window_size s) =
         Inr (window_process (window s) (stream_window s xs k))"
proof -
  let ?sk = "calc_first_sample k (window_shift s) (window_size s)"
  let ?ws = "int (length xs) - off"
  have len: "int (length (drop (nat off) xs)) = ?ws" using off by simp
  have "gather_reflect (drop (nat off) xs) ?ws (?sk - off) (window_size s) =
        gather_reflect xs (?ws + off) (?sk - off + off) (window_size s)"
    using off fs fit by (intro gather_reflect_suffix) auto
  also have "\<dots> = Some (stream_window s xs k)"
  proof -
    have "0 < int (length xs)" using off by linarith
    then show ?thesis using stream_window_gather[of xs k s] by simp
  qed
  finally have g: "gather_reflect (drop (nat off) xs) ?ws (?sk - off) (window_size s) =
                   Some (stream_window s xs k)" .
  show ?thesis
    using off fs len by (intro window_extract_gather g[folded len]) auto
qed

lemma map_int_range_Cons:
  assumes "lo < hi"
  shows "map (\<lambda>i. f (lo + int i)) [0..<nat (hi - lo)] =
         f lo # map (\<lambda>i. f (lo + 1 + int i)) [0..<nat (hi - (lo + 1))]"
proof (rule nth_equalityI)
  show "length (map (\<lambda>i. f (lo + int i)) [0..<nat (hi - lo)]) =
        length (f lo # map (\<lambda>i. f (lo + 1 + int i)) [0..<nat (hi - (lo + 1))])"
    using assms by simp
  fix j assume "j < length (map (\<lambda>i. f (lo + int i)) [0..<nat (hi - lo)])"
  show "map (\<lambda>i. f (lo + int i)) [0..<nat (hi - lo)] ! j =
        (f lo # map (\<lambda>i. f (lo + 1 + int i)) [0..<nat (hi - (lo + 1))]) ! j"
  proof (cases j)
    case 0
    then show ?thesis using assms by simp
  next
    case (Suc m)
    have "nat (hi - lo) = Suc (nat (hi - (lo + 1)))" using assms by simp
    then have "m < nat (hi - (lo + 1))"
      using \<open>j < length (map (\<lambda>i. f (lo + int i)) [0..<nat (hi - lo)])\<close> Suc by simp
    moreover have "[0..<nat (hi - lo)] ! Suc m = Suc m"
      using \<open>j < length (map (\<lambda>i. f (lo + int i)) [0..<nat (hi - lo)])\<close> Suc by simp
    ultimately show ?thesis using Suc by (simp add: algebra_simps)
  qed
qed

text \<open>The frame loop appends the specification's frames \<open>lo..hi-1\<close>.\<close>

lemma compute_loop_stream:
  assumes "\<And>k. lo \<le> k \<Longrightarrow> k < hi \<Longrightarrow>
     window_extract (window s) (waveform_offset s) (waveform_remainder s)
       (int (length (waveform_remainder s))) k (window_shift s) (window_size s) =
     Inr (window_process (window s) (stream_window s xs k))"
  shows "compute_loop s lo hi =
     Inr (s\<lparr>frames := (frames s)\<lparr>root := root (frames s) @ stream_frames s xs lo hi\<rparr>\<rparr>)"
  using assms
proof (induction s lo hi rule: compute_loop.induct)
  case (1 s index n)
  show ?case
  proof (cases "index < n")
    case True
    let ?f = "stream_frame s xs index"
    let ?s' = "s\<lparr>frames := frames_push (frames s) ?f\<rparr>"
    have ex: "window_extract (window s) (waveform_offset s) (waveform_remainder s)
       (int (length (waveform_remainder s))) index (window_shift s) (window_size s) =
       Inr (window_process (window s) (stream_window s xs index))"
      using "1.prems" True by simp
    then have "compute_loop s index n = compute_loop ?s' (index + 1) n"
      using True by (simp add: compute_loop.simps[of s index n] stream_frame_def Let_def)
    also have "\<dots> = Inr (?s'\<lparr>frames := (frames ?s')\<lparr>root := root (frames ?s') @ stream_frames ?s' xs (index + 1) n\<rparr>\<rparr>)"
    proof -
      have "\<And>k. index + 1 \<le> k \<Longrightarrow> k < n \<Longrightarrow>
          window_extract (window ?s') (waveform_offset ?s') (waveform_remainder ?s')
            (int (length (waveform_remainder ?s'))) k (window_shift ?s') (window_size ?s') =
          Inr (window_process (window ?s') (stream_window ?s' xs k))"
        using "1.prems" by (simp add: stream_window_def)
      then show ?thesis
        using "1.IH"[OF True ex refl refl] by (simp add: stream_frame_def)
    qed
    also have "\<dots> = Inr (s\<lparr>frames := (frames s)\<lparr>root := root (frames s) @ stream_frames s xs index n\<rparr>\<rparr>)"
    proof -
      have "stream_frames ?s' xs (index + 1) n = stream_frames s xs (index + 1) n"
        by (simp add: stream_frames_def stream_frame_def stream_window_def)
      moreover have "?f # stream_frames s xs (index + 1) n = stream_frames s xs index n"
        using True by (simp add: stream_frames_def map_int_range_Cons)
      ultimately show ?thesis by (simp add: frames_push_def)
    qed
    finally show ?thesis .
  next
    case False
    then show ?thesis by (simp add: compute_loop.simps[of s index n] stream_frames_def)
  qed
qed

lemma knf_cfg_ok_W: "knf_cfg_ok s \<Longrightarrow> 2 \<le> window_size s \<and> 0 < window_shift s"
  by (auto simp: knf_cfg_ok_def)

lemma stream_frame_extend:
  assumes cfg: "knf_cfg_ok s" and k: "0 \<le> k"
    and fits: "calc_first_sample k (window_shift s) (window_size s) + window_size s \<le> int (length xs)"
  shows "stream_frame s (xs @ ys) k = stream_frame s xs k"
proof -
  let ?sk = "calc_first_sample k (window_shift s) (window_size s)"
  let ?W = "window_size s" and ?sh = "window_shift s"
  have W: "2 \<le> ?W" "0 < ?sh" using cfg by (auto simp: knf_cfg_ok_def)
  have sk: "?sk = ?sh * k + ?sh div 2 - ?W div 2" using W by (simp add: calc_first_sample_eq)
  have "0 \<le> ?sh * k" "0 \<le> ?sh div 2" using W k by simp_all
  then have lo: "- (?W div 2) \<le> ?sk" using sk by linarith
  have n: "?W div 2 \<le> int (length xs)" "0 < int (length xs)" using fits lo W by linarith+
  have g: "gather_reflect (xs @ ys) (int (length (xs @ ys))) ?sk ?W = gather_reflect xs (int (length xs)) ?sk ?W"
    using n lo fits by (intro gather_reflect_extend) auto
  have "0 < int (length (xs @ ys))" using n(2) by (cases xs) auto
  then have "stream_window s (xs @ ys) k = stream_window s xs k"
    using g stream_window_gather[of xs k s] stream_window_gather[of "xs @ ys" k s] n by simp
  then show ?thesis by (simp add: stream_frame_def)
qed

lemma trim_remainder_inv:
  assumes rem: "waveform_remainder s = drop (nat (waveform_offset s)) xs"
    and off: "0 \<le> waveform_offset s" "waveform_offset s \<le> int (length xs)"
    and below: "waveform_offset s \<le> max 0 (calc_first_sample nf (window_shift s) (window_size s))"
  shows "\<exists>off'. trim_remainder s nf =
           s\<lparr>waveform_offset := off', waveform_remainder := drop (nat off') xs\<rparr> \<and>
           0 \<le> off' \<and> off' \<le> int (length xs) \<and>
           off' \<le> max 0 (calc_first_sample nf (window_shift s) (window_size s))"
proof -
  let ?off = "waveform_offset s"
  let ?fs = "calc_first_sample nf (window_shift s) (window_size s)"
  let ?d = "?fs - ?off"
  have len: "int (length (waveform_remainder s)) = int (length xs) - ?off"
    using rem off by simp
  show ?thesis
  proof (cases "?d > 0")
    case False
    then have "trim_remainder s nf = s" by (simp add: trim_remainder_def Let_def)
    then show ?thesis using rem off below by (intro exI[of _ ?off]) simp
  next
    case True
    show ?thesis
    proof (cases "int (length (waveform_remainder s)) - ?d \<le> 0")
      case empty: True
      then have "trim_remainder s nf =
          s\<lparr>waveform_offset := int (length xs), waveform_remainder := drop (nat (int (length xs))) xs\<rparr>"
        using True len by (simp add: trim_remainder_def Let_def)
      then show ?thesis using empty True len off by (intro exI[of _ "int (length xs)"]) simp
    next
      case False
      then have "trim_remainder s nf =
          s\<lparr>waveform_offset := ?fs, waveform_remainder := drop (nat ?fs) xs\<rparr>"
        using True len off rem by (simp add: trim_remainder_def Let_def nat_diff_distrib)
      then show ?thesis using False True len off by (intro exI[of _ ?fs]) simp
    qed
  qed
qed

lemma stream_frame_upd [simp]:
  "stream_frame (s\<lparr>frames := f\<rparr>) = stream_frame s"
  "stream_frame (s\<lparr>waveform_offset := o'\<rparr>) = stream_frame s"
  "stream_frame (s\<lparr>waveform_remainder := r\<rparr>) = stream_frame s"
  "stream_frame (s\<lparr>input_finished := b\<rparr>) = stream_frame s"
  by (simp_all add: stream_frame_def stream_window_def fun_eq_iff)

lemma stream_frames_upd [simp]:
  "stream_frames (s\<lparr>frames := f\<rparr>) = stream_frames s"
  "stream_frames (s\<lparr>waveform_offset := o'\<rparr>) = stream_frames s"
  "stream_frames (s\<lparr>waveform_remainder := r\<rparr>) = stream_frames s"
  "stream_frames (s\<lparr>input_finished := b\<rparr>) = stream_frames s"
  by (simp_all add: stream_frames_def fun_eq_iff)

lemma knf_cfg_ok_upd [simp]:
  "knf_cfg_ok (s\<lparr>frames := f\<rparr>) = knf_cfg_ok s"
  "knf_cfg_ok (s\<lparr>waveform_offset := o'\<rparr>) = knf_cfg_ok s"
  "knf_cfg_ok (s\<lparr>waveform_remainder := r\<rparr>) = knf_cfg_ok s"
  "knf_cfg_ok (s\<lparr>input_finished := b\<rparr>) = knf_cfg_ok s"
  by (simp_all add: knf_cfg_ok_def)

lemma length_stream_frames [simp]: "length (stream_frames s xs lo hi) = nat (hi - lo)"
  by (simp add: stream_frames_def)

lemma stream_frames_append:
  assumes "lo \<le> mid" "mid \<le> hi"
  shows "stream_frames s xs lo mid @ stream_frames s xs mid hi = stream_frames s xs lo hi"
proof (rule nth_equalityI)
  show "length (stream_frames s xs lo mid @ stream_frames s xs mid hi) =
        length (stream_frames s xs lo hi)" using assms by simp
  fix j assume j: "j < length (stream_frames s xs lo mid @ stream_frames s xs mid hi)"
  show "(stream_frames s xs lo mid @ stream_frames s xs mid hi) ! j = stream_frames s xs lo hi ! j"
  proof (cases "j < nat (mid - lo)")
    case True
    then show ?thesis using assms j by (simp add: nth_append stream_frames_def)
  next
    case False
    then have "mid + int (j - nat (mid - lo)) = lo + int j" using assms by simp
    then show ?thesis using assms j False by (simp add: nth_append stream_frames_def add.commute)
  qed
qed

text \<open>
  One call of \<open>compute_features\<close> on a state whose remainder is a suffix of the
  stream: it appends the specification's frames, trims, and re-establishes the
  invariant, provided every new frame's window lies within the mirrored stream.
\<close>

lemma compute_features_inv:
  assumes cfg: "knf_cfg_ok s"
    and off: "0 \<le> waveform_offset s" "waveform_offset s \<le> int (length xs)"
    and rem: "waveform_remainder s = drop (nat (waveform_offset s)) xs"
    and grow: "frames_size (frames s) \<le>
       calc_num_frames (int (length xs)) (window_shift s) (window_size s) (input_finished s)"
    and base: "0 \<le> base_index (frames s)"
    and rt: "root (frames s) = stream_frames s xs (base_index (frames s)) (frames_size (frames s))"
    and below: "waveform_offset s \<le>
       max 0 (calc_first_sample (frames_size (frames s)) (window_shift s) (window_size s))"
    and reach: "\<And>k. frames_size (frames s) \<le> k \<Longrightarrow>
       k < calc_num_frames (int (length xs)) (window_shift s) (window_size s) (input_finished s) \<Longrightarrow>
       waveform_offset s < int (length xs) \<and>
       (waveform_offset s = 0 \<or> calc_first_sample k (window_shift s) (window_size s) + window_size s
         \<le> 2 * int (length xs) - waveform_offset s)"
  shows "\<exists>s'. compute_features s = Inr s' \<and> knf_inv xs s' \<and>
     base_index (frames s') = base_index (frames s) \<and>
     s' = s\<lparr>frames := frames s', waveform_offset := waveform_offset s',
            waveform_remainder := waveform_remainder s'\<rparr>"
proof -
  let ?off = "waveform_offset s" and ?sh = "window_shift s" and ?W = "window_size s"
  let ?n0 = "frames_size (frames s)"
  let ?n1 = "calc_num_frames (int (length xs)) ?sh ?W (input_finished s)"
  let ?s1 = "s\<lparr>frames := (frames s)\<lparr>root := root (frames s) @ stream_frames s xs ?n0 ?n1\<rparr>\<rparr>"
  have W: "0 < ?sh" "0 \<le> ?W" using cfg by (auto simp: knf_cfg_ok_def)
  have tot: "?off + int (length (waveform_remainder s)) = int (length xs)" using off rem by simp
  have ex: "window_extract (window s) ?off (waveform_remainder s)
       (int (length (waveform_remainder s))) k ?sh ?W =
       Inr (window_process (window s) (stream_window s xs k))" if k: "?n0 \<le> k" "k < ?n1" for k
  proof -
    have r: "?off < int (length xs)" and f: "?off = 0 \<or> calc_first_sample k ?sh ?W + ?W \<le> 2 * int (length xs) - ?off"
      using reach[OF k] by auto
    have "calc_first_sample ?n0 ?sh ?W \<le> calc_first_sample k ?sh ?W"
      using W k by (intro calc_first_sample_mono) auto
    then have "?off = 0 \<or> ?off \<le> calc_first_sample k ?sh ?W" using below off by linarith
    moreover have "?off = 0 \<or> calc_first_sample k ?sh ?W - ?off + ?W \<le> 2 * (int (length xs) - ?off)"
      using f by (cases "?off = 0") auto
    ultimately show ?thesis using window_extract_stream[of ?off xs k s] off r rem by simp
  qed
  have loop: "compute_loop s ?n0 ?n1 = Inr ?s1"
    using compute_loop_stream[of ?n0 ?n1 s xs] ex by simp
  have cf: "compute_features s = Inr (trim_remainder ?s1 ?n1)"
    using grow loop tot by (simp add: compute_features_def Let_def)
  have "calc_first_sample ?n0 ?sh ?W \<le> calc_first_sample ?n1 ?sh ?W"
    using W grow by (intro calc_first_sample_mono) auto
  then have below1: "waveform_offset ?s1 \<le> max 0 (calc_first_sample ?n1 (window_shift ?s1) (window_size ?s1))"
    using below by simp
  obtain off' where t: "trim_remainder ?s1 ?n1 =
      ?s1\<lparr>waveform_offset := off', waveform_remainder := drop (nat off') xs\<rparr>"
    and o': "0 \<le> off'" "off' \<le> int (length xs)" "off' \<le> max 0 (calc_first_sample ?n1 ?sh ?W)"
    using trim_remainder_inv[of ?s1 xs ?n1] rem off below1 by auto
  have size1: "frames_size (frames ?s1) = ?n1"
    using grow by (simp add: frames_size_eq)
  have "base_index (frames s) \<le> ?n0" by (simp add: frames_size_eq)
  then have root1: "root (frames ?s1) = stream_frames s xs (base_index (frames s)) ?n1"
    using grow by (simp add: rt stream_frames_append)
  have "knf_inv xs (trim_remainder ?s1 ?n1)"
    unfolding t knf_inv_def using cfg o' size1 root1 base by simp
  then show ?thesis using cf t by simp
qed

lemma stream_frames_extend:
  assumes cfg: "knf_cfg_ok s" and lo: "0 \<le> lo"
    and fits: "\<And>k. lo \<le> k \<Longrightarrow> k < hi \<Longrightarrow>
       calc_first_sample k (window_shift s) (window_size s) + window_size s \<le> int (length xs)"
  shows "stream_frames s (xs @ ys) lo hi = stream_frames s xs lo hi"
  unfolding stream_frames_def
proof (rule map_cong[OF refl])
  fix i assume "i \<in> set [0..<nat (hi - lo)]"
  then have "lo \<le> lo + int i" "lo + int i < hi" by auto
  then show "stream_frame s (xs @ ys) (lo + int i) = stream_frame s xs (lo + int i)"
    using lo fits by (intro stream_frame_extend cfg) auto
qed

lemma knf_accept_inv:
  assumes inv: "knf_inv xs s" and fin: "\<not> input_finished s" and sr: "sr = sample_rate s"
  shows "\<exists>s'. knf_accept_waveform s sr ys = Inr s' \<and> knf_inv (xs @ ys) s' \<and>
     base_index (frames s') = base_index (frames s) \<and>
     s' = s\<lparr>frames := frames s', waveform_offset := waveform_offset s',
            waveform_remainder := waveform_remainder s'\<rparr>"
proof -
  let ?s1 = "s\<lparr>waveform_remainder := waveform_remainder s @ ys\<rparr>"
  let ?off = "waveform_offset s" and ?sh = "window_shift s" and ?W = "window_size s"
  let ?n0 = "frames_size (frames s)"
  let ?N = "int (length xs)" and ?N' = "int (length (xs @ ys))"
  have cfg: "knf_cfg_ok s" and off: "0 \<le> ?off" "?off \<le> ?N"
    and rem: "waveform_remainder s = drop (nat ?off) xs"
    and n0: "?n0 = calc_num_frames ?N ?sh ?W False"
    and base: "0 \<le> base_index (frames s)"
    and rt: "root (frames s) = stream_frames s xs (base_index (frames s)) ?n0"
    and below: "?off \<le> max 0 (calc_first_sample ?n0 ?sh ?W)"
    using inv fin by (auto simp: knf_inv_def)
  have W: "0 < ?sh" "2 \<le> ?W" using cfg by (auto simp: knf_cfg_ok_def)
  have grow: "?n0 \<le> calc_num_frames ?N' ?sh ?W False"
    using n0 W by (simp add: calc_num_frames_mono)
  have fitsN: "calc_first_sample k ?sh ?W + ?W \<le> ?N" if "base_index (frames s) \<le> k" "k < ?n0" for k
    using that n0 W base by (intro calc_num_frames_fits) auto
  have rt': "root (frames s) = stream_frames s (xs @ ys) (base_index (frames s)) ?n0"
    using rt stream_frames_extend[OF cfg base fitsN] by simp
  have reach: "?off < ?N' \<and> (?off = 0 \<or> calc_first_sample k ?sh ?W + ?W \<le> 2 * ?N' - ?off)"
    if k: "?n0 \<le> k" "k < calc_num_frames ?N' ?sh ?W False" for k
  proof -
    have k0: "0 \<le> k" using k base by (simp add: frames_size_eq)
    have fit: "calc_first_sample k ?sh ?W + ?W \<le> ?N'"
      using k k0 W by (intro calc_num_frames_fits) auto
    have lo: "- (?W div 2) \<le> calc_first_sample k ?sh ?W"
      using k0 W by (intro calc_first_sample_lower) auto
    have "calc_first_sample ?n0 ?sh ?W \<le> calc_first_sample k ?sh ?W"
      using k W by (intro calc_first_sample_mono) auto
    then show ?thesis using fit lo below off W by auto
  qed
  have "\<exists>s'. compute_features ?s1 = Inr s' \<and> knf_inv (xs @ ys) s' \<and>
     base_index (frames s') = base_index (frames ?s1) \<and>
     s' = ?s1\<lparr>frames := frames s', waveform_offset := waveform_offset s',
            waveform_remainder := waveform_remainder s'\<rparr>"
    using cfg off rem grow base rt' below reach fin
    by (intro compute_features_inv) auto
  then show ?thesis using sr by (auto simp: knf_accept_waveform_def)
qed

lemma knf_finish_inv:
  assumes inv: "knf_inv xs s"
  shows "\<exists>s'. knf_input_finished s = Inr s' \<and> knf_inv xs s' \<and>
     base_index (frames s') = base_index (frames s) \<and>
     s' = s\<lparr>input_finished := True, frames := frames s', waveform_offset := waveform_offset s',
            waveform_remainder := waveform_remainder s'\<rparr>"
proof -
  let ?s1 = "s\<lparr>input_finished := True\<rparr>"
  let ?off = "waveform_offset s" and ?sh = "window_shift s" and ?W = "window_size s"
  let ?n0 = "frames_size (frames s)"
  let ?N = "int (length xs)"
  have cfg: "knf_cfg_ok s" and off: "0 \<le> ?off" "?off \<le> ?N"
    and rem: "waveform_remainder s = drop (nat ?off) xs"
    and n0: "?n0 = calc_num_frames ?N ?sh ?W (input_finished s)"
    and base: "0 \<le> base_index (frames s)"
    and rt: "root (frames s) = stream_frames s xs (base_index (frames s)) ?n0"
    and below: "?off \<le> max 0 (calc_first_sample ?n0 ?sh ?W)"
    using inv by (auto simp: knf_inv_def)
  have W: "0 < ?sh" "2 * ?sh \<le> ?W" using cfg by (auto simp: knf_cfg_ok_def)
  have grow: "?n0 \<le> calc_num_frames ?N ?sh ?W True"
    using n0 W by (cases "input_finished s") (simp_all add: calc_num_frames_le_flush)
  have reach: "?off < ?N \<and> (?off = 0 \<or> calc_first_sample k ?sh ?W + ?W \<le> 2 * ?N - ?off)"
    if k: "?n0 \<le> k" "k < calc_num_frames ?N ?sh ?W True" for k
  proof -
    have nf: "\<not> input_finished s" using k n0 by auto
    have up: "calc_first_sample k ?sh ?W \<le> ?N - ?W div 2"
      using k W off by (intro calc_first_sample_counted[of _ _ _ _ True]) auto
    have pos: "0 < ?N"
    proof -
      have "0 \<le> k" using k base by (simp add: frames_size_eq)
      then have "0 \<le> ?sh * k" using W by simp
      moreover have "?sh * (k + 1) \<le> ?N + ?sh div 2"
        using calc_num_frames_centre[of ?sh ?W ?N k True] k W off by simp
      moreover have "?sh * (k + 1) = ?sh * k + ?sh" by (simp add: algebra_simps)
      moreover have "?sh div 2 < ?sh" using W by simp
      ultimately show ?thesis by linarith
    qed
    show ?thesis
    proof (cases "?off = 0")
      case False
      have "0 < ?n0"
      proof (rule ccontr)
        assume "\<not> 0 < ?n0"
        then have "?sh * ?n0 \<le> 0" using W by (simp add: mult_nonneg_nonpos)
        moreover have "?sh div 2 \<le> ?W div 2" using W by (simp add: zdiv_mono1)
        ultimately have "calc_first_sample ?n0 ?sh ?W \<le> 0" using W by (simp add: calc_first_sample_eq)
        then show False using below off False by simp
      qed
      then have "calc_first_sample ?n0 ?sh ?W \<le> ?N - ?W + ?sh"
        using n0 nf W off by (simp add: calc_first_sample_next)
      moreover have "?sh \<le> ?W div 2" using W by linarith
      moreover have "?off \<le> calc_first_sample ?n0 ?sh ?W"
        using below False off by (auto simp: max_def split: if_splits)
      ultimately show ?thesis using up W by linarith
    qed (use pos in simp)
  qed
  have "\<exists>s'. compute_features ?s1 = Inr s' \<and> knf_inv xs s' \<and>
     base_index (frames s') = base_index (frames ?s1) \<and>
     s' = ?s1\<lparr>frames := frames s', waveform_offset := waveform_offset s',
            waveform_remainder := waveform_remainder s'\<rparr>"
    using cfg off rem grow base rt below reach
    by (intro compute_features_inv) auto
  then show ?thesis by (auto simp: knf_input_finished_def)
qed

lemma stream_frames_drop:
  assumes "d \<le> nat (hi - lo)"
  shows "drop d (stream_frames s xs lo hi) = stream_frames s xs (lo + int d) hi"
proof (rule nth_equalityI)
  show "length (drop d (stream_frames s xs lo hi)) = length (stream_frames s xs (lo + int d) hi)"
    using assms by simp
  fix j assume "j < length (drop d (stream_frames s xs lo hi))"
  then have "d + j < nat (hi - lo)" "j < nat (hi - (lo + int d))" using assms by auto
  then show "drop d (stream_frames s xs lo hi) ! j = stream_frames s xs (lo + int d) hi ! j"
    using assms by (simp add: stream_frames_def algebra_simps)
qed

lemma knf_pop_inv:
  assumes "knf_inv xs s"
  shows "knf_inv xs (knf_pop s n)"
proof -
  let ?f = "frames s"
  let ?d = "min (length (root ?f)) (nat n)"
  have rt: "root ?f = stream_frames s xs (base_index ?f) (frames_size ?f)"
    using assms by (simp add: knf_inv_def)
  have "?d \<le> nat (frames_size ?f - base_index ?f)" by (simp add: frames_size_eq)
  then have "drop ?d (root ?f) = stream_frames s xs (base_index ?f + int ?d) (frames_size ?f)"
    by (simp only: rt stream_frames_drop)
  then show ?thesis
    using assms unfolding knf_inv_def knf_pop_def by (auto simp: frames_pop_root frames_pop_base)
qed

lemma knf_get_frame_inv:
  assumes "knf_inv xs s" "base_index (frames s) \<le> k" "k < knf_num_frames_ready s"
  shows "knf_get_frame s k = Inr (stream_frame s xs k)"
proof -
  have "root (frames s) = stream_frames s xs (base_index (frames s)) (frames_size (frames s))"
    using assms(1) by (simp add: knf_inv_def)
  moreover have "nat (k - base_index (frames s)) < nat (frames_size (frames s) - base_index (frames s))"
    using assms(2,3) by (simp add: knf_num_frames_ready_def)
  ultimately show ?thesis
    using assms(2,3) frames_get_valid[of "frames s" k]
    by (simp add: knf_get_frame_def knf_num_frames_ready_def stream_frames_def)
qed

lemma stream_frame_params:
  "knf_params s' = knf_params s \<Longrightarrow> stream_frame s' = stream_frame s"
  by (simp add: knf_params_def stream_frame_def stream_window_def fun_eq_iff)

lemma knf_params_upd [simp]:
  "knf_params (s\<lparr>frames := f\<rparr>) = knf_params s"
  "knf_params (s\<lparr>waveform_offset := o'\<rparr>) = knf_params s"
  "knf_params (s\<lparr>waveform_remainder := r\<rparr>) = knf_params s"
  "knf_params (s\<lparr>input_finished := b\<rparr>) = knf_params s"
  by (simp_all add: knf_params_def)

lemma knf_step_inv:
  assumes "knf_inv xs s" "knf_calls_ok (sample_rate s) (input_finished s) (c # cs)"
  shows "\<exists>s'. knf_step s c = Inr s' \<and> knf_inv (xs @ knf_calls_samples [c]) s' \<and>
     knf_params s' = knf_params s \<and> input_finished s' = knf_calls_finish (input_finished s) [c] \<and>
     knf_calls_ok (sample_rate s') (input_finished s') cs"
proof (cases c)
  case (AcceptWaveform r ys)
  obtain s' where s': "knf_accept_waveform s r ys = Inr s'" "knf_inv (xs @ ys) s'"
    and e: "s' = s\<lparr>frames := frames s', waveform_offset := waveform_offset s',
                   waveform_remainder := waveform_remainder s'\<rparr>"
    using knf_accept_inv[of xs s r ys] assms AcceptWaveform by auto
  have "knf_params s' = knf_params s" "input_finished s' = input_finished s"
    using arg_cong[OF e, of knf_params] arg_cong[OF e, of input_finished] by simp_all
  then show ?thesis using s' assms AcceptWaveform by (auto simp: knf_params_def)
next
  case InputFinished
  obtain s' where s': "knf_input_finished s = Inr s'" "knf_inv xs s'"
    and e: "s' = s\<lparr>input_finished := True, frames := frames s', waveform_offset := waveform_offset s',
                   waveform_remainder := waveform_remainder s'\<rparr>"
    using knf_finish_inv[of xs s] assms by auto
  have "knf_params s' = knf_params s" "input_finished s'"
    using arg_cong[OF e, of knf_params] arg_cong[OF e, of input_finished] by simp_all
  then show ?thesis using s' assms InputFinished by (auto simp: knf_params_def)
next
  case (Pop n)
  then show ?thesis using knf_pop_inv[of xs s n] assms by (simp add: knf_params_def knf_pop_def)
qed

lemma knf_inv_ready:
  "knf_inv xs s \<Longrightarrow> knf_num_frames_ready s =
     calc_num_frames (int (length xs)) (window_shift s) (window_size s) (input_finished s)"
  by (simp add: knf_inv_def knf_num_frames_ready_def)

lemma knf_calls_samples_Cons:
  "knf_calls_samples (c # cs) = knf_calls_samples [c] @ knf_calls_samples cs"
  by (cases c) simp_all

lemma knf_calls_finish_Cons:
  "knf_calls_finish fin (c # cs) = knf_calls_finish (knf_calls_finish fin [c]) cs"
  by (cases c) simp_all

lemma knf_run_inv:
  assumes "knf_inv xs s" "knf_calls_ok (sample_rate s) (input_finished s) cs"
  shows "\<exists>s'. knf_run s cs = Inr s' \<and> knf_inv (xs @ knf_calls_samples cs) s' \<and>
     knf_params s' = knf_params s \<and> input_finished s' = knf_calls_finish (input_finished s) cs"
  using assms
proof (induction cs arbitrary: xs s)
  case Nil
  then show ?case by simp
next
  case (Cons c cs)
  obtain s1 where s1: "knf_step s c = Inr s1" "knf_inv (xs @ knf_calls_samples [c]) s1"
    "knf_params s1 = knf_params s" "input_finished s1 = knf_calls_finish (input_finished s) [c]"
    "knf_calls_ok (sample_rate s1) (input_finished s1) cs"
    using knf_step_inv[OF Cons.prems] by blast
  obtain s' where "knf_run s1 cs = Inr s'" "knf_inv ((xs @ knf_calls_samples [c]) @ knf_calls_samples cs) s'"
    "knf_params s' = knf_params s1" "input_finished s' = knf_calls_finish (input_finished s1) cs"
    using Cons.IH[OF s1(2) s1(5)] by blast
  then show ?case using s1
    by (auto simp: knf_calls_samples_Cons[of c cs] knf_calls_finish_Cons[of _ c cs])
qed

lemma window_process_silence:
  assumes "\<forall>v \<in> set x. v = 0"
  shows "\<forall>v \<in> set (window_process w x). v = 0"
proof -
  have "sum_list x = 0" using assms by (induction x) auto
  then have r: "remove_dc_offset x ! k = 0" if "k < length x" for k
    using assms that by (simp add: remove_dc_offset_def dc_sum_eq)
  have p: "preemphasize (remove_dc_offset x) 0.97 ! k = 0" if "k < length x" for k
    using that r[of 0] r[of k] r[of "k - 1"] by (cases k) (auto simp: preemphasize_nth)
  show ?thesis
  proof
    fix v assume "v \<in> set (window_process w x)"
    then obtain i where "i < length x" "i < length w"
      "v = preemphasize (remove_dc_offset x) 0.97 ! i * w ! i"
      by (auto simp: window_process_def in_set_conv_nth)
    then show "v = 0" using p by simp
  qed
qed

lemma stream_window_silence:
  assumes "\<forall>v \<in> set xs. v = 0" "xs \<noteq> []"
  shows "\<forall>v \<in> set (stream_window s xs k). v = 0"
proof
  fix v assume "v \<in> set (stream_window s xs k)"
  then obtain i where v: "v = xs ! nat (the (reflect_index (int (length xs))
      (calc_first_sample k (window_shift s) (window_size s) + int i)))"
    by (auto simp: stream_window_def)
  obtain r where r: "reflect_index (int (length xs))
      (calc_first_sample k (window_shift s) (window_size s) + int i) = Some r"
    "0 \<le> r" "r < int (length xs)"
    using reflect_index_total[of "int (length xs)"] assms(2) by fastforce
  then show "v = 0" using v assms(1) by (simp add: nth_mem)
qed

lemma stream_frame_silence:
  assumes "fbank_wf (fbank s)" "\<forall>v \<in> set xs. v = 0" "xs \<noteq> []"
  shows "stream_frame s xs k = replicate (length (bins (fbank s))) (ln FLT_EPSILON)"
proof -
  have "\<forall>v \<in> set (window_process (window s) (stream_window s xs k) @
      replicate (nat (window_size_padded s - window_size s)) 0). v = 0"
    using window_process_silence[OF stream_window_silence[OF assms(2,3)]] by auto
  then show ?thesis unfolding stream_frame_def by (rule fbank_compute_silence[OF assms(1)])
qed

lemma compute_loop_fields:
  "compute_loop s lo hi = Inr s' \<Longrightarrow> s' = s\<lparr>frames := frames s'\<rparr> \<and>
     frames_size (frames s') = frames_size (frames s) + max 0 (hi - lo)"
proof (induction s lo hi arbitrary: s' rule: compute_loop.induct)
  case (1 s index n)
  show ?case
  proof (cases "index < n")
    case True
    then obtain w where w: "window_extract (window s) (waveform_offset s) (waveform_remainder s)
        (int (length (waveform_remainder s))) index (window_shift s) (window_size s) = Inr w"
      using "1.prems" by (auto simp: compute_loop.simps[of s index n] split: sum.splits)
    let ?s1 = "s\<lparr>frames := frames_push (frames s)
       (fbank_compute (fbank s) (w @ replicate (nat (window_size_padded s - window_size s)) 0))\<rparr>"
    have c: "compute_loop ?s1 (index + 1) n = Inr s'"
      using "1.prems" True w by (simp add: compute_loop.simps[of s index n] Let_def)
    have "s' = ?s1\<lparr>frames := frames s'\<rparr> \<and>
        frames_size (frames s') = frames_size (frames ?s1) + max 0 (n - (index + 1))"
      using "1.IH"[OF True w refl refl c] by blast
    then show ?thesis using True by auto
  next
    case False
    then show ?thesis using "1.prems" by (simp add: compute_loop.simps[of s index n])
  qed
qed

lemma trim_remainder_trimmed:
  "calc_first_sample n (window_shift s) (window_size s) \<le> waveform_offset (trim_remainder s n) \<or>
   waveform_remainder (trim_remainder s n) = []"
  by (auto simp: trim_remainder_def Let_def)

lemma trim_remainder_id:
  assumes "calc_first_sample n (window_shift s) (window_size s) \<le> waveform_offset s \<or>
    waveform_remainder s = []"
  shows "trim_remainder s n = s"
  using assms by (auto simp: trim_remainder_def Let_def)

lemma trim_remainder_fields [simp]:
  "frames (trim_remainder s n) = frames s" "input_finished (trim_remainder s n) = input_finished s"
  "knf_params (trim_remainder s n) = knf_params s"
  by (simp_all add: trim_remainder_def Let_def knf_params_def)

lemma compute_features_trimmed:
  assumes "compute_features s = Inr s'"
  shows "calc_first_sample (frames_size (frames s')) (window_shift s') (window_size s') \<le> waveform_offset s' \<or>
         waveform_remainder s' = []"
proof -
  let ?n0 = "frames_size (frames s)"
  let ?n1 = "calc_num_frames (waveform_offset s + int (length (waveform_remainder s)))
               (window_shift s) (window_size s) (input_finished s)"
  obtain s1 where l: "compute_loop s ?n0 ?n1 = Inr s1" and g: "?n0 \<le> ?n1"
    and s': "s' = trim_remainder s1 ?n1"
    using assms by (auto simp: compute_features_def Let_def split: if_splits sum.splits)
  have f: "s1 = s\<lparr>frames := frames s1\<rparr>" "frames_size (frames s1) = ?n1"
    using compute_loop_fields[OF l] g by auto
  have "window_shift s1 = window_shift s" "window_size s1 = window_size s"
    using arg_cong[OF f(1), of window_shift] arg_cong[OF f(1), of window_size] by simp_all
  then show ?thesis using trim_remainder_trimmed[of ?n1 s1] f(2) s'
    by (simp add: trim_remainder_def Let_def)
qed

lemma knf_inv_total:
  "knf_inv xs s \<Longrightarrow> waveform_offset s + int (length (waveform_remainder s)) = int (length xs)"
  by (auto simp: knf_inv_def)

lemma knf_reach_inv: "knf_reach xs s \<Longrightarrow> knf_inv xs s"
proof (induction rule: knf_reach.induct)
  case (create sr fd s)
  then show ?case by (rule knf_create_inv)
next
  case (accept xs s ys s')
  then show ?case using knf_accept_inv[of xs s "sample_rate s" ys]
    by (auto simp: knf_is_input_finished_def)
next
  case (finish xs s s')
  then show ?case using knf_finish_inv[of xs s] by auto
next
  case (pop xs s n)
  then show ?case using knf_pop_inv by blast
qed

lemma window_extract_succeeds:
  assumes "0 \<le> off" "wave \<noteq> []" "off = 0 \<or> off \<le> calc_first_sample k sh W"
  shows "\<exists>w. window_extract scale off wave (int (length wave)) k sh W = Inr w"
proof -
  have "0 < int (length wave)" using assms(2) by simp
  then obtain g where "gather_reflect wave (int (length wave)) (calc_first_sample k sh W - off) W = Some g"
    using gather_reflect_eq by blast
  then show ?thesis using assms window_extract_gather[OF assms(1) \<open>0 < int (length wave)\<close> refl] by blast
qed

lemma compute_loop_extends:
  assumes "0 \<le> waveform_offset s" "waveform_remainder s \<noteq> []"
    and "\<And>k. lo \<le> k \<Longrightarrow> k < hi \<Longrightarrow>
      waveform_offset s = 0 \<or> waveform_offset s \<le> calc_first_sample k (window_shift s) (window_size s)"
  shows "\<exists>fs. compute_loop s lo hi = Inr (s\<lparr>frames := (frames s)\<lparr>root := root (frames s) @ fs\<rparr>\<rparr>)"
  using assms
proof (induction s lo hi rule: compute_loop.induct)
  case (1 s index n)
  show ?case
  proof (cases "index < n")
    case True
    obtain w where w: "window_extract (window s) (waveform_offset s) (waveform_remainder s)
        (int (length (waveform_remainder s))) index (window_shift s) (window_size s) = Inr w"
      using window_extract_succeeds[OF "1.prems"(1,2)] "1.prems"(3)[of index] True by blast
    let ?f = "fbank_compute (fbank s) (w @ replicate (nat (window_size_padded s - window_size s)) 0)"
    let ?s1 = "s\<lparr>frames := frames_push (frames s) ?f\<rparr>"
    have c: "compute_loop s index n = compute_loop ?s1 (index + 1) n"
      using True w by (simp add: compute_loop.simps[of s index n] Let_def)
    obtain fs where "compute_loop ?s1 (index + 1) n =
        Inr (?s1\<lparr>frames := (frames ?s1)\<lparr>root := root (frames ?s1) @ fs\<rparr>\<rparr>)"
      using "1.IH"[OF True w refl refl] "1.prems" by auto
    then show ?thesis using c by (intro exI[of _ "?f # fs"]) (simp add: frames_push_def)
  next
    case False
    then show ?thesis by (intro exI[of _ "[]"]) (simp add: compute_loop.simps[of s index n])
  qed
qed

lemma knf_accept_after_finish:
  assumes inv: "knf_inv xs s" and fin: "input_finished s" and sr: "sr = sample_rate s"
    and ys: "ys \<noteq> []"
  shows "\<exists>s' fs. knf_accept_waveform s sr ys = Inr s' \<and>
     frames s' = (frames s)\<lparr>root := root (frames s) @ fs\<rparr> \<and>
     knf_num_frames_ready s' =
       calc_num_frames (int (length (xs @ ys))) (window_shift s) (window_size s) True"
proof -
  let ?s1 = "s\<lparr>waveform_remainder := waveform_remainder s @ ys\<rparr>"
  let ?sh = "window_shift s" and ?W = "window_size s" and ?off = "waveform_offset s"
  let ?n0 = "frames_size (frames s)"
  let ?n1 = "calc_num_frames (int (length (xs @ ys))) ?sh ?W True"
  have cfg: "0 < ?sh" "0 \<le> ?W" using inv by (auto simp: knf_inv_def knf_cfg_ok_def)
  have off: "0 \<le> ?off" "?off \<le> max 0 (calc_first_sample ?n0 ?sh ?W)"
    and n0: "?n0 = calc_num_frames (int (length xs)) ?sh ?W True"
    using inv fin by (auto simp: knf_inv_def)
  have tot: "?off + int (length (waveform_remainder ?s1)) = int (length (xs @ ys))"
    using knf_inv_total[OF inv] by simp
  have grow: "?n0 \<le> ?n1" using n0 cfg by (simp add: calc_num_frames_mono)
  have "?off = 0 \<or> ?off \<le> calc_first_sample k ?sh ?W" if "?n0 \<le> k" for k
  proof -
    have "calc_first_sample ?n0 ?sh ?W \<le> calc_first_sample k ?sh ?W"
      using that cfg by (intro calc_first_sample_mono) auto
    then show ?thesis using off by linarith
  qed
  then obtain fs where l: "compute_loop ?s1 ?n0 ?n1 =
      Inr (?s1\<lparr>frames := (frames ?s1)\<lparr>root := root (frames ?s1) @ fs\<rparr>\<rparr>)"
    using compute_loop_extends[of ?s1 ?n0 ?n1] off(1) ys by auto
  have size: "frames_size ((frames s)\<lparr>root := root (frames s) @ fs\<rparr>) = ?n1"
    using compute_loop_fields[OF l] grow by simp
  have eq: "calc_num_frames (waveform_offset ?s1 + int (length (waveform_remainder ?s1)))
      (window_shift ?s1) (window_size ?s1) (input_finished ?s1) = ?n1"
    using tot fin by (simp add: add.assoc[symmetric])
  have "compute_features ?s1 =
      (if \<not> ?n1 \<ge> frames_size (frames ?s1) then Inl FramesDecrease
       else case compute_loop ?s1 (frames_size (frames ?s1)) ?n1 of
              Inl e \<Rightarrow> Inl e | Inr s' \<Rightarrow> Inr (trim_remainder s' ?n1))"
    by (simp only: compute_features_def Let_def eq)
  also have "\<dots> = Inr (trim_remainder (?s1\<lparr>frames := (frames ?s1)\<lparr>root := root (frames ?s1) @ fs\<rparr>\<rparr>) ?n1)"
    using l grow by simp
  finally have "compute_features ?s1 = \<dots>" .
  then show ?thesis using sr size
    by (auto simp: knf_accept_waveform_def knf_num_frames_ready_def)
qed

lemma knf_accept_finish_steps:
  assumes "knf_inv [] s" "\<not> input_finished s"
  shows "\<exists>s1 s2. knf_accept_waveform s (sample_rate s) xs = Inr s1 \<and> knf_input_finished s1 = Inr s2 \<and>
     knf_inv xs s2 \<and> base_index (frames s2) = base_index (frames s) \<and> knf_params s2 = knf_params s \<and>
     input_finished s2"
proof -
  obtain s1 where s1: "knf_accept_waveform s (sample_rate s) xs = Inr s1" "knf_inv xs s1"
      "base_index (frames s1) = base_index (frames s)"
      "s1 = s\<lparr>frames := frames s1, waveform_offset := waveform_offset s1,
            waveform_remainder := waveform_remainder s1\<rparr>"
    using knf_accept_inv[OF assms, of "sample_rate s" xs] by auto
  obtain s2 where s2: "knf_input_finished s1 = Inr s2" "knf_inv xs s2"
      "base_index (frames s2) = base_index (frames s1)"
      "s2 = s1\<lparr>input_finished := True, frames := frames s2, waveform_offset := waveform_offset s2,
            waveform_remainder := waveform_remainder s2\<rparr>"
    using knf_finish_inv[OF s1(2)] by blast
  have "knf_params s2 = knf_params s" "input_finished s2"
    using arg_cong[OF s2(4), of knf_params] arg_cong[OF s2(4), of input_finished]
      arg_cong[OF s1(4), of knf_params] by simp_all
  then show ?thesis using s1 s2 by auto
qed


lemma knf_16k_start:
  "\<exists>s. knf_create 16000 80 = Inr s \<and> knf_reach [] s \<and> knf_inv [] s \<and> sample_rate s = 16000 \<and>
     window_shift s = 160 \<and> window_size s = 400 \<and> \<not> input_finished s \<and> base_index (frames s) = 0 \<and>
     fbank_wf (fbank s) \<and> length (bins (fbank s)) = 80"
proof -
  obtain s where s: "knf_create 16000 80 = Inr s" "window_shift s = 160" "window_size s = 400"
      "window_size_padded s = 512"
    using knf_create_16000 by blast
  have c: "fbank_init 16000 512 (replicate 256 0) = Inr (fbank s)" "sample_rate s = 16000"
    "\<not> input_finished s" "frames s = frames_init"
    using knf_create_Inr[OF s(1)] s(4) by simp_all
  then have "fbank_wf (fbank s) \<and> length (bins (fbank s)) = NB_MEL_BINS"
    using fbank_init_wf[of 16000 512 "replicate 256 0" "fbank s"] by simp
  moreover have "knf_reach [] s" using knf_reach.create[OF s(1)] by simp
  ultimately show ?thesis using s c knf_create_inv[OF s(1)] by (auto simp: NB_MEL_BINS_def)
qed


lemma knf_16k_accept_finish:
  "\<exists>s s1 s2. knf_create 16000 80 = Inr s \<and> knf_accept_waveform s 16000 xs = Inr s1 \<and>
     knf_input_finished s1 = Inr s2 \<and> knf_inv xs s2 \<and> base_index (frames s2) = 0 \<and>
     fbank_wf (fbank s2) \<and> length (bins (fbank s2)) = 80 \<and>
     window_shift s2 = 160 \<and> window_size s2 = 400 \<and> input_finished s2"
proof -
  obtain s where s: "knf_create 16000 80 = Inr s" "knf_inv [] s" "sample_rate s = 16000"
      "\<not> input_finished s" "base_index (frames s) = 0" "window_shift s = 160" "window_size s = 400"
      "fbank_wf (fbank s)" "length (bins (fbank s)) = 80"
    using knf_16k_start by blast
  then show ?thesis using knf_accept_finish_steps[OF s(2) s(4), of xs] by (auto simp: knf_params_def)
qed

subsection \<open>Properties\<close>

text \<open>
  C3. Every engine reachable through the protocol satisfies the
  stream invariant for the stream it has accepted, and reports as ready exactly the
  frames \<open>calc_num_frames\<close> determines for that stream (rule induction over the calls).
\<close>

theorem knf_reach_invariant:
  assumes "knf_reach xs s"
  shows "knf_inv xs s \<and> knf_num_frames_ready s =
     calc_num_frames (int (length xs)) (window_shift s) (window_size s) (knf_is_input_finished s)"
  using knf_reach_inv[OF assms] knf_inv_ready[OF knf_reach_inv[OF assms]]
  by (simp add: knf_is_input_finished_def)

theorem knf_reach_invariant_witness:
  "\<exists>s. knf_create 16000 80 = Inr s \<and> knf_inv [] s \<and> knf_num_frames_ready s = 0"
proof -
  obtain s where s: "knf_create 16000 80 = Inr s" "knf_reach [] s" "window_shift s = 160"
      "window_size s = 400" using knf_16k_start by blast
  moreover have "knf_num_frames_ready s = 0"
    using knf_create_Inr[OF s(1)] by (simp add: knf_num_frames_ready_def)
  ultimately show ?thesis using knf_reach_invariant[OF s(2)] by simp
qed

text \<open>
  C4. No protocol-respecting call aborts a reachable engine: a chunk at
  the engine's rate before \<open>knf_input_finished\<close>, \<open>knf_input_finished\<close> itself and
  \<open>knf_pop\<close> all succeed, and lead to reachable engines again.
\<close>

theorem knf_reach_progress:
  assumes "knf_reach xs s"
  shows "(\<not> knf_is_input_finished s \<longrightarrow>
      (\<exists>s'. knf_accept_waveform s (sample_rate s) ys = Inr s' \<and> knf_reach (xs @ ys) s')) \<and>
    (\<exists>s'. knf_input_finished s = Inr s' \<and> knf_reach xs s') \<and> knf_reach xs (knf_pop s n)"
proof (intro conjI impI)
  have inv: "knf_inv xs s" using assms by (rule knf_reach_inv)
  show "\<exists>s'. knf_accept_waveform s (sample_rate s) ys = Inr s' \<and> knf_reach (xs @ ys) s'"
    if "\<not> knf_is_input_finished s"
    using knf_accept_inv[OF inv _ refl, of ys] that knf_reach.accept[OF assms that]
    by (auto simp: knf_is_input_finished_def)
  show "\<exists>s'. knf_input_finished s = Inr s' \<and> knf_reach xs s'"
    using knf_finish_inv[OF inv] knf_reach.finish[OF assms] by blast
  show "knf_reach xs (knf_pop s n)" using assms by (rule knf_reach.pop)
qed

theorem knf_reach_progress_witness:
  "\<exists>s s'. knf_create 16000 80 = Inr s \<and>
     knf_accept_waveform s 16000 (replicate 400 0) = Inr s' \<and> knf_reach (replicate 400 0) s'"
proof -
  obtain s where s: "knf_create 16000 80 = Inr s" "knf_reach [] s" "sample_rate s = 16000"
      "\<not> input_finished s" using knf_16k_start by blast
  then show ?thesis using knf_reach_progress[OF s(2), of "replicate 400 0"]
    by (auto simp: knf_is_input_finished_def)
qed

text \<open>
  C5. \<open>knf_accept_waveform\<close> before \<open>knf_input_finished\<close>, at
  the engine's rate, refines appending the chunk to the stream: it succeeds, the
  result satisfies the invariant for the extended stream, no frame is evicted, and only
  the frames, the offset and the remainder change.
\<close>

theorem knf_accept_waveform_refines:
  assumes "knf_inv xs s" and "\<not> input_finished s" and "sr = sample_rate s"
  shows "\<exists>s'. knf_accept_waveform s sr ys = Inr s' \<and> knf_inv (xs @ ys) s' \<and>
     base_index (frames s') = base_index (frames s) \<and>
     s' = s\<lparr>frames := frames s', waveform_offset := waveform_offset s',
            waveform_remainder := waveform_remainder s'\<rparr>"
  using knf_accept_inv[OF assms] .

theorem knf_accept_waveform_refines_witness:
  "\<exists>s s'. knf_create 16000 80 = Inr s \<and> knf_accept_waveform s 16000 (replicate 400 0) = Inr s' \<and>
     knf_inv (replicate 400 0) s'"
proof -
  obtain s where s: "knf_create 16000 80 = Inr s" "knf_inv [] s" "sample_rate s = 16000"
      "\<not> input_finished s" using knf_16k_start by blast
  then show ?thesis using knf_accept_waveform_refines[OF s(2) s(4), of 16000 "replicate 400 0"] by auto
qed

text \<open>
  C6. \<open>knf_input_finished\<close> refines ending the stream: it
  succeeds from every state satisfying the invariant, emits the trailing frames whose
  windows are completed by mirroring, keeps the invariant for the same stream, and
  changes only the flag, the frames, the offset and the remainder.
\<close>

theorem knf_input_finished_refines:
  assumes "knf_inv xs s"
  shows "\<exists>s'. knf_input_finished s = Inr s' \<and> knf_inv xs s' \<and>
     base_index (frames s') = base_index (frames s) \<and>
     s' = s\<lparr>input_finished := True, frames := frames s', waveform_offset := waveform_offset s',
            waveform_remainder := waveform_remainder s'\<rparr>"
  using knf_finish_inv[OF assms] .

theorem knf_input_finished_refines_witness:
  "\<exists>s s'. knf_create 16000 80 = Inr s \<and> knf_input_finished s = Inr s' \<and> knf_inv [] s'"
proof -
  obtain s where s: "knf_create 16000 80 = Inr s" "knf_inv [] s" using knf_16k_start by blast
  then show ?thesis using knf_input_finished_refines[OF s(2)] by auto
qed

text \<open>
  C7. Finishing twice is finishing once: the second
  \<open>knf_input_finished\<close> finds no new frame (the count is already the flushing count)
  and nothing left to trim, and returns the engine unchanged.
\<close>

theorem knf_input_finished_idempotent:
  assumes inv: "knf_inv xs s" and f: "knf_input_finished s = Inr s1"
  shows "knf_input_finished s1 = Inr s1"
proof -
  obtain s' where s': "knf_input_finished s = Inr s'" "knf_inv xs s'"
    and e: "s' = s\<lparr>input_finished := True, frames := frames s', waveform_offset := waveform_offset s',
                   waveform_remainder := waveform_remainder s'\<rparr>"
    using knf_finish_inv[OF inv] by blast
  have s1: "s1 = s'" using s'(1) f by simp
  have fin: "input_finished s1" using arg_cong[OF e, of input_finished] s1 by simp
  have tr: "calc_first_sample (frames_size (frames s1)) (window_shift s1) (window_size s1) \<le> waveform_offset s1 \<or>
      waveform_remainder s1 = []"
    using compute_features_trimmed f by (simp add: knf_input_finished_def)
  let ?n = "frames_size (frames s1)"
  have n: "calc_num_frames (waveform_offset s1 + int (length (waveform_remainder s1)))
      (window_shift s1) (window_size s1) (input_finished s1) = ?n"
    using knf_inv_total[OF s'(2)] s'(2) s1 by (simp add: knf_inv_def)
  have upd: "s1\<lparr>input_finished := True\<rparr> = s1" using fin by simp
  have "compute_loop s1 ?n ?n = Inr s1" by (simp add: compute_loop.simps)
  then show ?thesis using n tr upd
    by (simp add: knf_input_finished_def compute_features_def Let_def trim_remainder_id)
qed

theorem knf_input_finished_idempotent_witness:
  "\<exists>s s1. knf_create 16000 80 = Inr s \<and> knf_input_finished s = Inr s1 \<and> knf_input_finished s1 = Inr s1"
proof -
  obtain s where s: "knf_create 16000 80 = Inr s" "knf_inv [] s" using knf_16k_start by blast
  obtain s1 where "knf_input_finished s = Inr s1" using knf_finish_inv[OF s(2)] by blast
  then show ?thesis using knf_input_finished_idempotent[OF s(2)] s by blast
qed

text \<open>
  C8. \<open>knf_get_frame\<close> on an engine satisfying the invariant returns,
  for every retained index, the specification's frame of the stream, and fails with
  \<open>OutOfRange\<close> for every index not produced yet.
\<close>

theorem knf_get_frame_refines:
  assumes "knf_inv xs s"
  shows "(base_index (frames s) \<le> k \<and> k < knf_num_frames_ready s \<longrightarrow>
      knf_get_frame s k = Inr (stream_frame s xs k)) \<and>
    (knf_num_frames_ready s \<le> k \<longrightarrow> knf_get_frame s k = Inl OutOfRange)"
  using knf_get_frame_inv[OF assms]
  by (auto simp: knf_get_frame_def knf_num_frames_ready_def frames_get_drop frames_size_eq)

theorem knf_get_frame_refines_witness:
  "\<exists>s s'. knf_create 16000 80 = Inr s \<and> knf_accept_waveform s 16000 (replicate 400 0) = Inr s' \<and>
     knf_get_frame s' 0 = Inr (stream_frame s' (replicate 400 0) 0) \<and>
     knf_get_frame s' 1 = Inl OutOfRange"
proof -
  obtain s where s: "knf_create 16000 80 = Inr s" "knf_inv [] s" "sample_rate s = 16000"
      "\<not> input_finished s" "base_index (frames s) = 0" "window_shift s = 160" "window_size s = 400"
    using knf_16k_start by blast
  obtain s' where s': "knf_accept_waveform s 16000 (replicate 400 0) = Inr s'"
      "knf_inv (replicate 400 0) s'" "base_index (frames s') = 0"
      "s' = s\<lparr>frames := frames s', waveform_offset := waveform_offset s',
            waveform_remainder := waveform_remainder s'\<rparr>"
    using knf_accept_inv[OF s(2) s(4), of 16000 "replicate 400 0"] s by auto
  have p: "window_shift s' = 160" "window_size s' = 400" "\<not> input_finished s'"
    using arg_cong[OF s'(4), of window_shift] arg_cong[OF s'(4), of window_size]
      arg_cong[OF s'(4), of input_finished] s by simp_all
  have "knf_num_frames_ready s' = 1"
    using knf_inv_ready[OF s'(2)] p by (simp add: calc_num_frames_closed Let_def frame_end0_def calc_first_sample_eq)
  then show ?thesis
    using knf_get_frame_refines[OF s'(2), of 0] knf_get_frame_refines[OF s'(2), of 1] s s' by auto
qed

text \<open>
  C9. \<open>knf_pop\<close> keeps the invariant and the number of frames
  ready, and every index still retained afterwards returns the same frame as before.
\<close>

theorem knf_pop_consistent:
  assumes "knf_inv xs s"
  shows "knf_inv xs (knf_pop s n) \<and> knf_num_frames_ready (knf_pop s n) = knf_num_frames_ready s \<and>
    (\<forall>i. base_index (frames (knf_pop s n)) \<le> i \<longrightarrow> knf_get_frame (knf_pop s n) i = knf_get_frame s i)"
  using knf_pop_inv[OF assms] frames_get_pop[of "frames s" n]
  by (auto simp: knf_pop_def knf_get_frame_def knf_num_frames_ready_def)

theorem knf_pop_consistent_witness:
  "\<exists>s. knf_create 16000 80 = Inr s \<and> knf_inv [] (knf_pop s 3) \<and>
     knf_get_frame (knf_pop s 3) 0 = knf_get_frame s 0"
proof -
  obtain s where s: "knf_create 16000 80 = Inr s" "knf_inv [] s" "base_index (frames s) = 0"
    using knf_16k_start by blast
  have "base_index (frames (knf_pop s 3)) = 0"
    using s(3) knf_create_Inr[OF s(1)] by (simp add: knf_pop_def frames_pop_base)
  then show ?thesis using knf_pop_consistent[OF s(2), of 3] s by auto
qed

end
