(* ===== verification/KNF_FrameHeap.thy ===== *)
theory KNF_FrameHeap
  imports KNF_Frames
begin

text \<open>
  The frame store of \<open>src/knf.c\<close> (lines 235--305) at the level of its pointers.
  \<open>KNF_Frames\<close> models the chain from \<open>root\<close> as a list; here the frames live in an
  explicit heap, a map from addresses to \<open>Frame\<close> cells in which address \<open>0\<close> is
  \<open>NULL\<close> (as in \<open>HOL/Hoare/SepLogHeap\<close>), and \<open>Frames\<close> holds the three fields of
  the C struct, including the \<open>last\<close> pointer that \<open>frames_push\<close> writes through.
  \<open>malloc\<close> is a parameter: any allocator that returns \<open>NULL\<close> or an address not in
  use; \<open>free\<close> removes the cell.  A load from \<open>NULL\<close> or from a freed cell is the
  error \<open>BadPointer\<close>.  The loops that follow \<open>next\<close> pointers until \<open>NULL\<close>
  (\<open>frames_size\<close>, \<open>frames_deinit\<close>) need not end on an arbitrary heap (a cycle), so
  they are \<open>partial_function (option)\<close>; the loops bounded by a counter are
  \<open>function\<close>s with a measure.

  The theory proves that on a heap holding exactly a well-formed chain every
  operation ends, never loads through a bad pointer, keeps the chain well formed,
  and does to the abstraction what the list model of \<open>KNF_Frames\<close> does; that a run
  of any sequence of frame-store operations refines the list model's run, with
  allocation failure the only new error; and that \<open>frames_deinit\<close> frees every frame.
\<close>

type_synonym addr = nat

text \<open>\<open>struct Frame { float feature[NB_MEL_BINS]; Frame * next; };\<close>\<close>

record 'f frame_cell =
  frame_feature :: 'f
  frame_next :: addr

type_synonym 'f heap = "addr \<rightharpoonup> 'f frame_cell"

text \<open>\<open>typedef struct { Frame * root; int base_index; Frame * last; } Frames;\<close>\<close>

record pframes =
  proot :: addr
  pbase_index :: int
  plast :: addr

definition load :: "'f heap \<Rightarrow> addr \<Rightarrow> knf_error + 'f frame_cell" where
  "load h p = (case h p of None \<Rightarrow> Inl BadPointer | Some c \<Rightarrow> Inr c)"

text \<open>
  \<open>frame_alloc\<close>: \<open>malloc\<close> gives an address or \<open>NULL\<close>; the new cell holds whatever
  the memory held (\<open>junk\<close>), since \<open>malloc\<close> does not initialise it.
\<close>

definition frame_alloc ::
  "('f heap \<Rightarrow> addr) \<Rightarrow> 'f frame_cell \<Rightarrow> 'f heap \<Rightarrow> knf_error + addr \<times> 'f heap" where
  "frame_alloc malloc junk h =
     (let frame = malloc h in if frame = 0 then Inl AllocFailed else Inr (frame, h(frame \<mapsto> junk)))"

definition pframes_init :: pframes where
  "pframes_init = \<lparr>proot = 0, pbase_index = 0, plast = 0\<rparr>"

text \<open>\<open>while (s->root) { frame = s->root; s->root = frame->next; free(frame); }\<close>\<close>

partial_function (option) pframes_deinit ::
  "'f heap \<Rightarrow> pframes \<Rightarrow> (knf_error + 'f heap \<times> pframes) option" where
  "pframes_deinit h s =
     (if proot s = 0 then Some (Inr (h, s))
      else case h (proot s) of
             None \<Rightarrow> Some (Inl BadPointer)
           | Some frame \<Rightarrow> pframes_deinit (h(proot s := None)) (s\<lparr>proot := frame_next frame\<rparr>))"

text \<open>\<open>for (size = s->base_index; root; root = root->next, size++) ;\<close>\<close>

partial_function (option) pframes_count ::
  "'f heap \<Rightarrow> addr \<Rightarrow> int \<Rightarrow> (knf_error + int) option" where
  "pframes_count h root' size' =
     (if root' = 0 then Some (Inr size')
      else case h root' of
             None \<Rightarrow> Some (Inl BadPointer)
           | Some c \<Rightarrow> pframes_count h (frame_next c) (size' + 1))"

declare pframes_deinit.simps [code] pframes_count.simps [code]

definition pframes_size :: "'f heap \<Rightarrow> pframes \<Rightarrow> (knf_error + int) option" where
  "pframes_size h s = pframes_count h (proot s) (pbase_index s)"

text \<open>\<open>frame->next = NULL; if (!s->root) s->root = frame; else s->last->next = frame; s->last = frame;\<close>\<close>

definition pframes_push :: "'f heap \<Rightarrow> pframes \<Rightarrow> addr \<Rightarrow> knf_error + 'f heap \<times> pframes" where
  "pframes_push h s frame =
     (case load h frame of
        Inl e \<Rightarrow> Inl e
      | Inr c \<Rightarrow>
          let h1 = h(frame \<mapsto> c\<lparr>frame_next := 0\<rparr>)
          in if proot s = 0 then Inr (h1, s\<lparr>proot := frame, plast := frame\<rparr>)
             else case load h1 (plast s) of
                    Inl e \<Rightarrow> Inl e
                  | Inr l \<Rightarrow> Inr (h1(plast s \<mapsto> l\<lparr>frame_next := frame\<rparr>), s\<lparr>plast := frame\<rparr>))"

text \<open>
  The three lines of \<open>compute_features\<close> that store a new frame:
  \<open>frame = frame_alloc(); fbank_compute(..., frame->feature); frames_push(&s->frames, frame);\<close>
\<close>

definition pframes_add ::
  "('f heap \<Rightarrow> addr) \<Rightarrow> 'f frame_cell \<Rightarrow> 'f \<Rightarrow> 'f heap \<Rightarrow> pframes \<Rightarrow> knf_error + 'f heap \<times> pframes" where
  "pframes_add malloc junk x h s =
     (case frame_alloc malloc junk h of
        Inl e \<Rightarrow> Inl e
      | Inr (frame, h1) \<Rightarrow>
          (case load h1 frame of
             Inl e \<Rightarrow> Inl e
           | Inr c \<Rightarrow> pframes_push (h1(frame \<mapsto> c\<lparr>frame_feature := x\<rparr>)) s frame))"

text \<open>\<open>for (i = 0; i < nframes && s->root; i++) { frame = s->root; s->root = frame->next; free(frame); s->base_index++; }\<close>\<close>

function pframes_pop_loop ::
  "int \<Rightarrow> int \<Rightarrow> 'f heap \<Rightarrow> pframes \<Rightarrow> knf_error + 'f heap \<times> pframes" where
  "pframes_pop_loop i nframes h s =
     (if i < nframes \<and> proot s \<noteq> 0 then
        (case load h (proot s) of
           Inl e \<Rightarrow> Inl e
         | Inr frame \<Rightarrow> pframes_pop_loop (i + 1) nframes (h(proot s := None))
                          (s\<lparr>proot := frame_next frame, pbase_index := pbase_index s + 1\<rparr>))
      else Inr (h, s))"
  by pat_completeness auto
termination
  by (relation "measure (\<lambda>(i, n, _, _). nat (n - i))") auto

declare pframes_pop_loop.simps [simp del]

definition pframes_pop :: "'f heap \<Rightarrow> pframes \<Rightarrow> int \<Rightarrow> knf_error + 'f heap \<times> pframes" where
  "pframes_pop h s nframes = pframes_pop_loop 0 nframes h s"

text \<open>\<open>for (i = s->base_index; i < index && root; i++, root = root->next) ;\<close>\<close>

function pframes_walk :: "'f heap \<Rightarrow> int \<Rightarrow> int \<Rightarrow> addr \<Rightarrow> knf_error + addr" where
  "pframes_walk h i index root' =
     (if i < index \<and> root' \<noteq> 0 then
        (case load h root' of
           Inl e \<Rightarrow> Inl e
         | Inr c \<Rightarrow> pframes_walk h (i + 1) index (frame_next c))
      else Inr root')"
  by pat_completeness auto
termination
  by (relation "measure (\<lambda>(_, i, n, _). nat (n - i))") auto

declare pframes_walk.simps [simp del]

text \<open>\<open>frames_get\<close> (\<open>assert(root); return root;\<close>) and \<open>knf_get_frame\<close>, which reads the
  \<open>feature\<close> field of the frame found.\<close>

definition pframes_get :: "'f heap \<Rightarrow> pframes \<Rightarrow> int \<Rightarrow> knf_error + addr" where
  "pframes_get h s index =
     (case pframes_walk h (pbase_index s) index (proot s) of
        Inl e \<Rightarrow> Inl e
      | Inr root' \<Rightarrow> if root' = 0 then Inl OutOfRange else Inr root')"

definition pframes_get_feature :: "'f heap \<Rightarrow> pframes \<Rightarrow> int \<Rightarrow> knf_error + 'f" where
  "pframes_get_feature h s index =
     (case pframes_get h s index of
        Inl e \<Rightarrow> Inl e
      | Inr frame \<Rightarrow> (case load h frame of Inl e \<Rightarrow> Inl e | Inr c \<Rightarrow> Inr (frame_feature c)))"

subsection \<open>The chain, the invariant and the abstraction\<close>

text \<open>\<open>chain h p as\<close>: following \<open>next\<close> from \<open>p\<close> visits the allocated cells \<open>as\<close> and
  reaches \<open>NULL\<close> (\<open>List\<close> of \<open>HOL/Hoare/SepLogHeap\<close>).\<close>

fun chain :: "'f heap \<Rightarrow> addr \<Rightarrow> addr list \<Rightarrow> bool" where
  "chain h p [] \<longleftrightarrow> p = 0"
| "chain h p (a # as) \<longleftrightarrow> p = a \<and> a \<noteq> 0 \<and>
     (case h a of None \<Rightarrow> False | Some c \<Rightarrow> chain h (frame_next c) as)"

text \<open>
  The store is well formed when the heap holds exactly the frames of the chain from
  \<open>root\<close> (nothing leaked, nothing shared) and, while the chain is not empty, \<open>last\<close>
  is its final frame.  After \<open>frames_pop\<close> empties the chain \<open>last\<close> still points to a
  freed frame; \<open>frames_push\<close> never loads it then, since it tests \<open>root\<close> first.
\<close>

definition pframes_inv :: "'f heap \<Rightarrow> pframes \<Rightarrow> addr list \<Rightarrow> bool" where
  "pframes_inv h s as \<longleftrightarrow>
     chain h (proot s) as \<and> dom h = set as \<and> (as \<noteq> [] \<longrightarrow> plast s = last as)"

definition pframes_abs :: "'f heap \<Rightarrow> pframes \<Rightarrow> addr list \<Rightarrow> 'f frames" where
  "pframes_abs h s as =
     \<lparr>root = map (\<lambda>a. frame_feature (the (h a))) as, base_index = pbase_index s\<rparr>"

text \<open>The \<open>malloc\<close> contract: \<open>NULL\<close>, or an address that is not allocated.\<close>

definition malloc_ok :: "('f heap \<Rightarrow> addr) \<Rightarrow> bool" where
  "malloc_ok malloc \<longleftrightarrow> (\<forall>h. malloc h = 0 \<or> h (malloc h) = None)"

subsection \<open>Sequences of frame-store operations\<close>

text \<open>
  The engine uses its frame store through four calls: \<open>compute_features\<close> stores a
  new frame, \<open>knf_pop\<close> pops, \<open>knf_num_frames_ready\<close> counts and \<open>knf_get_frame\<close>
  reads.  Both models run a sequence of them and collect what each call returns.
\<close>

datatype 'f frames_op = OpPush 'f | OpPop int | OpSize | OpGet int

datatype 'f frames_out = OutNone | OutSize int | OutFrame 'f

fun frames_op_step :: "'f frames \<Rightarrow> 'f frames_op \<Rightarrow> knf_error + 'f frames \<times> 'f frames_out" where
  "frames_op_step f (OpPush x) = Inr (frames_push f x, OutNone)"
| "frames_op_step f (OpPop n) = Inr (frames_pop f n, OutNone)"
| "frames_op_step f OpSize = Inr (f, OutSize (frames_size f))"
| "frames_op_step f (OpGet i) = (case frames_get f i of Inl e \<Rightarrow> Inl e | Inr x \<Rightarrow> Inr (f, OutFrame x))"

fun frames_op_run :: "'f frames \<Rightarrow> 'f frames_op list \<Rightarrow> knf_error + 'f frames \<times> 'f frames_out list" where
  "frames_op_run f [] = Inr (f, [])"
| "frames_op_run f (op # ops) =
     (case frames_op_step f op of
        Inl e \<Rightarrow> Inl e
      | Inr (f', out) \<Rightarrow>
          (case frames_op_run f' ops of Inl e \<Rightarrow> Inl e | Inr (f'', outs) \<Rightarrow> Inr (f'', out # outs)))"

definition pframes_op_step ::
  "('f heap \<Rightarrow> addr) \<Rightarrow> 'f frame_cell \<Rightarrow> 'f heap \<Rightarrow> pframes \<Rightarrow> 'f frames_op \<Rightarrow>
   (knf_error + 'f heap \<times> pframes \<times> 'f frames_out) option" where
  "pframes_op_step malloc junk h s op =
     (case op of
        OpPush x \<Rightarrow> Some (case pframes_add malloc junk x h s of
                            Inl e \<Rightarrow> Inl e | Inr (h', s') \<Rightarrow> Inr (h', s', OutNone))
      | OpPop n \<Rightarrow> Some (case pframes_pop h s n of
                           Inl e \<Rightarrow> Inl e | Inr (h', s') \<Rightarrow> Inr (h', s', OutNone))
      | OpSize \<Rightarrow> (case pframes_size h s of
                     None \<Rightarrow> None
                   | Some (Inl e) \<Rightarrow> Some (Inl e)
                   | Some (Inr n) \<Rightarrow> Some (Inr (h, s, OutSize n)))
      | OpGet i \<Rightarrow> Some (case pframes_get_feature h s i of
                           Inl e \<Rightarrow> Inl e | Inr x \<Rightarrow> Inr (h, s, OutFrame x)))"

fun pframes_op_run ::
  "('f heap \<Rightarrow> addr) \<Rightarrow> 'f frame_cell \<Rightarrow> 'f heap \<Rightarrow> pframes \<Rightarrow> 'f frames_op list \<Rightarrow>
   (knf_error + 'f heap \<times> pframes \<times> 'f frames_out list) option" where
  "pframes_op_run malloc junk h s [] = Some (Inr (h, s, []))"
| "pframes_op_run malloc junk h s (op # ops) =
     (case pframes_op_step malloc junk h s op of
        None \<Rightarrow> None
      | Some (Inl e) \<Rightarrow> Some (Inl e)
      | Some (Inr (h', s', out)) \<Rightarrow>
          (case pframes_op_run malloc junk h' s' ops of
             None \<Rightarrow> None
           | Some (Inl e) \<Rightarrow> Some (Inl e)
           | Some (Inr (h'', s'', outs)) \<Rightarrow> Some (Inr (h'', s'', out # outs))))"

text \<open>
  A result of the pointer model simulates one of the list model: an error is an
  allocation failure or the list model's error, a success is a well-formed store whose
  abstraction is the list model's result, with the same outputs.
\<close>

definition pframes_sim :: "knf_error + 'f heap \<times> pframes \<times> 'o \<Rightarrow> knf_error + 'f frames \<times> 'o \<Rightarrow> bool" where
  "pframes_sim r r' \<longleftrightarrow>
     (case r of
        Inl e \<Rightarrow> e = AllocFailed \<or> r' = Inl e
      | Inr (h', s', out) \<Rightarrow> (\<exists>as'. pframes_inv h' s' as' \<and> r' = Inr (pframes_abs h' s' as', out)))"

subsection \<open>The chain: uniqueness, distinctness, updates outside it\<close>

lemma chain_Null [simp]: "chain h 0 as \<longleftrightarrow> as = []"
  by (cases as) auto

lemma chain_nonnull:
  "p \<noteq> 0 \<Longrightarrow> chain h p as \<longleftrightarrow> (\<exists>c as'. as = p # as' \<and> h p = Some c \<and> chain h (frame_next c) as')"
  by (cases as) (auto split: option.splits)

lemma chain_upd [simp]: "x \<notin> set as \<Longrightarrow> chain (h(x := v)) p as = chain h p as"
  by (induction as arbitrary: p) (auto split: option.splits)

lemma chain_in_dom: "chain h p as \<Longrightarrow> set as \<subseteq> dom h"
  by (induction as arbitrary: p) (auto split: option.splits)

lemma chain_unique: "chain h p as \<Longrightarrow> chain h p bs \<Longrightarrow> as = bs"
proof (induction as arbitrary: p bs)
  case Nil
  then show ?case by simp
next
  case (Cons a as)
  then show ?case by (cases bs) (auto split: option.splits)
qed

lemma chain_drop: "chain h p as \<Longrightarrow> chain h (case drop n as of [] \<Rightarrow> 0 | a # _ \<Rightarrow> a) (drop n as)"
proof (induction as arbitrary: p n)
  case Nil
  then show ?case by simp
next
  case (Cons a as)
  obtain c where c: "p = a" "h a = Some c" "chain h (frame_next c) as"
    using Cons.prems by (auto split: option.splits)
  show ?case
  proof (cases n)
    case 0
    then show ?thesis using Cons.prems c(1) by simp
  next
    case (Suc m)
    then show ?thesis using Cons.IH[OF c(3), of m] by simp
  qed
qed

lemma chain_distinct: "chain h p as \<Longrightarrow> distinct as"
proof (induction as arbitrary: p)
  case Nil
  then show ?case by simp
next
  case (Cons a as)
  obtain c where c: "p = a" "h a = Some c" "chain h (frame_next c) as"
    using Cons.prems by (auto split: option.splits)
  have "a \<notin> set as"
  proof
    assume "a \<in> set as"
    then obtain n where n: "n < length as" "as ! n = a" by (auto simp: in_set_conv_nth)
    then have "drop n as = a # drop (Suc n) as" by (metis Cons_nth_drop_Suc)
    then have "chain h a (drop n as)" using chain_drop[OF c(3), of n] by simp
    moreover have "chain h a (a # as)" using Cons.prems c(1) by simp
    ultimately have "drop n as = a # as" by (rule chain_unique)
    then have "length (drop n as) = length (a # as)" by simp
    then show False by simp
  qed
  then show ?case using Cons.IH[OF c(3)] by simp
qed

lemma map_feature_upd_other:
  "x \<notin> set as \<Longrightarrow> map (\<lambda>a. frame_feature (the ((h(x := v)) a))) as = map (\<lambda>a. frame_feature (the (h a))) as"
  by (induction as) auto

lemma map_feature_upd_next:
  "h x = Some c \<Longrightarrow>
   map (\<lambda>a. frame_feature (the ((h(x \<mapsto> c\<lparr>frame_next := q\<rparr>)) a))) as = map (\<lambda>a. frame_feature (the (h a))) as"
  by (induction as) auto

lemma chain_snoc:
  assumes "chain h p as" "as \<noteq> []" "h (last as) = Some l" "a \<notin> set as" "a \<noteq> 0"
    "h a = Some ca" "frame_next ca = 0"
  shows "chain (h(last as \<mapsto> l\<lparr>frame_next := a\<rparr>)) p (as @ [a])"
  using assms
proof (induction as arbitrary: p)
  case Nil
  then show ?case by simp
next
  case (Cons b bs)
  show ?case
  proof (cases bs)
    case Nil
    then show ?thesis using Cons.prems by auto
  next
    case (Cons b' bs')
    obtain c where c: "p = b" "b \<noteq> 0" "h b = Some c" "chain h (frame_next c) bs"
      using Cons.prems(1) by (auto split: option.splits)
    have "b \<notin> set bs" using chain_distinct[OF Cons.prems(1)] by simp
    then have "last bs \<noteq> b" using Cons by auto
    then show ?thesis using Cons.IH[OF c(4)] Cons.prems c Cons by auto
  qed
qed

subsection \<open>Each operation on a well-formed store\<close>

lemma pframes_count_chain: "chain h p as \<Longrightarrow> pframes_count h p n = Some (Inr (n + int (length as)))"
proof (induction as arbitrary: p n)
  case Nil
  then show ?case by (simp add: pframes_count.simps)
next
  case (Cons a as)
  then show ?case by (subst pframes_count.simps) (auto split: option.splits)
qed

lemma pframes_deinit_chain:
  "chain h (proot s) as \<Longrightarrow> pframes_deinit h s = Some (Inr (h |` (- set as), s\<lparr>proot := 0\<rparr>))"
proof (induction as arbitrary: h s)
  case Nil
  then show ?case by (simp add: pframes_deinit.simps)
next
  case (Cons a as)
  obtain c where c: "proot s = a" "a \<noteq> 0" "h a = Some c" "chain h (frame_next c) as"
    using Cons.prems by (auto split: option.splits)
  have a: "a \<notin> set as" using chain_distinct[OF Cons.prems] by simp
  have ch: "chain (h(a := None)) (proot (s\<lparr>proot := frame_next c\<rparr>)) as" using c(4) a by simp
  have "pframes_deinit h s = pframes_deinit (h(a := None)) (s\<lparr>proot := frame_next c\<rparr>)"
    using c by (subst pframes_deinit.simps) simp
  also have "\<dots> = Some (Inr (h(a := None) |` (- set as), s\<lparr>proot := 0\<rparr>))"
    using Cons.IH[OF ch] by (simp del: restrict_fun_upd fun_upd_apply)
  also have "h(a := None) |` (- set as) = h |` (- set (a # as))"
    by (auto simp: restrict_map_def fun_eq_iff)
  finally show ?case .
qed

lemma pframes_deinit_inv:
  "pframes_inv h s as \<Longrightarrow> pframes_deinit h s = Some (Inr (Map.empty, s\<lparr>proot := 0\<rparr>))"
proof -
  assume inv: "pframes_inv h s as"
  then have "h |` (- set as) = Map.empty"
    by (auto simp: pframes_inv_def restrict_map_def fun_eq_iff)
  then show ?thesis using inv pframes_deinit_chain[of h s as] by (simp add: pframes_inv_def)
qed

lemma pframes_walk_chain:
  "chain h r as \<Longrightarrow>
   pframes_walk h i index r = Inr (case drop (nat (index - i)) as of [] \<Rightarrow> 0 | a # _ \<Rightarrow> a)"
proof (induction as arbitrary: i r)
  case Nil
  then show ?case by (simp add: pframes_walk.simps)
next
  case (Cons a as)
  obtain c where c: "r = a" "a \<noteq> 0" "h a = Some c" "chain h (frame_next c) as"
    using Cons.prems by (auto split: option.splits)
  show ?case
  proof (cases "i < index")
    case True
    have "nat (index - i) = Suc (nat (index - (i + 1)))" using True by simp
    then show ?thesis using True c Cons.IH[OF c(4), of "i + 1"]
      by (subst pframes_walk.simps) (simp add: load_def)
  next
    case False
    then show ?thesis using c by (subst pframes_walk.simps) simp
  qed
qed

lemma pframes_get_feature_inv:
  assumes "pframes_inv h s as"
  shows "pframes_get_feature h s index = frames_get (pframes_abs h s as) index"
proof -
  have ch: "chain h (proot s) as" using assms by (simp add: pframes_inv_def)
  let ?d = "drop (nat (index - pbase_index s)) as"
  show ?thesis
  proof (cases ?d)
    case Nil
    then show ?thesis using pframes_walk_chain[OF ch]
      by (simp add: pframes_get_feature_def pframes_get_def frames_get_drop pframes_abs_def drop_map)
  next
    case (Cons a rest)
    obtain c where "a \<noteq> 0" "h a = Some c"
      using chain_drop[OF ch, of "nat (index - pbase_index s)"] Cons by (auto split: option.splits)
    then show ?thesis using pframes_walk_chain[OF ch] Cons
      by (simp add: pframes_get_feature_def pframes_get_def frames_get_drop pframes_abs_def drop_map load_def)
  qed
qed

lemma pframes_size_inv:
  "pframes_inv h s as \<Longrightarrow> pframes_size h s = Some (Inr (frames_size (pframes_abs h s as)))"
  by (simp add: pframes_inv_def pframes_size_def pframes_count_chain frames_size_eq pframes_abs_def)

lemma pframes_pop_loop_inv:
  assumes "pframes_inv h s as"
  shows "\<exists>h' s'. pframes_pop_loop i n h s = Inr (h', s') \<and>
     pframes_inv h' s' (drop (min (length as) (nat (n - i))) as) \<and>
     map (\<lambda>a. frame_feature (the (h' a))) (drop (min (length as) (nat (n - i))) as) =
       drop (min (length as) (nat (n - i))) (map (\<lambda>a. frame_feature (the (h a))) as) \<and>
     pbase_index s' = pbase_index s + int (min (length as) (nat (n - i)))"
  using assms
proof (induction i n h s arbitrary: as rule: pframes_pop_loop.induct)
  case (1 i n h s)
  show ?case
  proof (cases "i < n \<and> proot s \<noteq> 0")
    case True
    obtain c as' where c: "as = proot s # as'" "h (proot s) = Some c" "chain h (frame_next c) as'"
      using "1.prems" True chain_nonnull[of "proot s" h as] by (auto simp: pframes_inv_def)
    let ?a = "proot s"
    have a: "?a \<notin> set as'" using chain_distinct[of h "proot s" as] "1.prems" c(1)
      by (simp add: pframes_inv_def)
    let ?h1 = "h(?a := None)" and ?s1 = "s\<lparr>proot := frame_next c, pbase_index := pbase_index s + 1\<rparr>"
    have inv1: "pframes_inv ?h1 ?s1 as'"
      using "1.prems" c a by (auto simp: pframes_inv_def)
    from True have "i < n" by simp
    then have "nat (n - i) = Suc (nat (n - (i + 1)))" by simp
    then have d: "min (length as) (nat (n - i)) = Suc (min (length as') (nat (n - (i + 1))))"
      using c(1) by simp
    have step: "pframes_pop_loop i n h s = pframes_pop_loop (i + 1) n ?h1 ?s1"
      using True c by (subst pframes_pop_loop.simps) (simp add: load_def)
    have ld: "load h (proot s) = Inr c" by (simp add: load_def c(2))
    let ?d = "min (length as') (nat (n - (i + 1)))"
    obtain h' s' where r: "pframes_pop_loop (i + 1) n ?h1 ?s1 = Inr (h', s')"
      "pframes_inv h' s' (drop ?d as')"
      "map (\<lambda>a. frame_feature (the (h' a))) (drop ?d as') =
         drop ?d (map (\<lambda>a. frame_feature (the (?h1 a))) as')"
      "pbase_index s' = pbase_index ?s1 + int ?d"
      using "1.IH"[OF True ld inv1] by blast
    have "map (\<lambda>a. frame_feature (the (?h1 a))) as' = map (\<lambda>a. frame_feature (the (h a))) as'"
      by (rule map_feature_upd_other[OF a])
    then have "map (\<lambda>a. frame_feature (the (h' a))) (drop ?d as') =
        drop ?d (map (\<lambda>a. frame_feature (the (h a))) as')"
      using r(3) by (simp only:)
    then show ?thesis
      using r(1,2,4) step d c(1) by simp
  next
    case False
    then have "min (length as) (nat (n - i)) = 0"
      using "1.prems" by (auto simp: pframes_inv_def)
    moreover have "pframes_pop_loop i n h s = Inr (h, s)"
      by (simp only: pframes_pop_loop.simps[of i n h s] if_not_P[OF False])
    ultimately show ?thesis using "1.prems" by simp
  qed
qed

lemma pframes_pop_inv:
  assumes "pframes_inv h s as"
  shows "\<exists>h' s'. pframes_pop h s n = Inr (h', s') \<and>
     pframes_inv h' s' (drop (min (length as) (nat n)) as) \<and>
     pframes_abs h' s' (drop (min (length as) (nat n)) as) = frames_pop (pframes_abs h s as) n"
  using pframes_pop_loop_inv[OF assms, of 0 n]
  by (auto simp: pframes_pop_def frames_pop_eq pframes_abs_def drop_map)

lemma pframes_add_alloc_failed:
  "malloc h = 0 \<Longrightarrow> pframes_add malloc junk x h s = Inl AllocFailed"
  by (simp add: pframes_add_def frame_alloc_def)

lemma pframes_add_inv:
  assumes inv: "pframes_inv h s as" and a: "malloc h = a" "a \<noteq> 0" "h a = None"
  shows "\<exists>h' s'. pframes_add malloc junk x h s = Inr (h', s') \<and>
     pframes_inv h' s' (as @ [a]) \<and>
     pframes_abs h' s' (as @ [a]) = frames_push (pframes_abs h s as) x"
proof -
  have ch: "chain h (proot s) as" and dom: "dom h = set as"
    and lst: "as \<noteq> [] \<Longrightarrow> plast s = last as"
    using inv by (auto simp: pframes_inv_def)
  have na: "a \<notin> set as" using dom a(3) by auto
  let ?c = "junk\<lparr>frame_feature := x, frame_next := 0\<rparr>"
  let ?h3 = "h(a \<mapsto> ?c)"
  have add: "pframes_add malloc junk x h s = pframes_push (h(a \<mapsto> junk\<lparr>frame_feature := x\<rparr>)) s a"
    using a by (simp add: pframes_add_def frame_alloc_def load_def)
  have feat: "map (\<lambda>b. frame_feature (the (?h3 b))) as = map (\<lambda>b. frame_feature (the (h b))) as"
    using map_feature_upd_other[OF na, of h "Some ?c"] by simp
  show ?thesis
  proof (cases "proot s = 0")
    case True
    then have "as = []" using ch by simp
    then show ?thesis using add True dom a(2)
      by (simp add: pframes_push_def load_def pframes_inv_def pframes_abs_def frames_push_def)
  next
    case False
    then have ne: "as \<noteq> []" using ch by auto
    then have "last as \<in> dom h" using dom by simp
    then obtain l where l: "h (last as) = Some l" by auto
    have la: "last as \<noteq> a" using na ne by auto
    have ch3: "chain ?h3 (proot s) as" using ch na by simp
    have "chain (?h3(last as \<mapsto> l\<lparr>frame_next := a\<rparr>)) (proot s) (as @ [a])"
      by (rule chain_snoc[OF ch3 ne _ na a(2), where ca = ?c]) (simp_all add: l la)
    moreover have "map (\<lambda>b. frame_feature (the ((?h3(last as \<mapsto> l\<lparr>frame_next := a\<rparr>)) b))) as =
        map (\<lambda>b. frame_feature (the (h b))) as"
      using map_feature_upd_next[of ?h3 "last as" l a as] feat l la by simp
    ultimately show ?thesis using add False lst[OF ne] l la dom
      by (auto simp: pframes_push_def load_def pframes_inv_def pframes_abs_def frames_push_def)
  qed
qed

subsection \<open>Runs of operations\<close>

lemma pframes_op_step_sim:
  assumes "pframes_inv h s as" "malloc_ok malloc"
  shows "\<exists>r. pframes_op_step malloc junk h s op = Some r \<and>
     pframes_sim r (frames_op_step (pframes_abs h s as) op)"
proof (cases op)
  case (OpPush x)
  show ?thesis
  proof (cases "malloc h = 0")
    case True
    then show ?thesis using OpPush by (simp add: pframes_op_step_def pframes_add_alloc_failed pframes_sim_def)
  next
    case False
    then have "h (malloc h) = None"
      using spec[OF assms(2)[unfolded malloc_ok_def], of h] by simp
    then show ?thesis using pframes_add_inv[where malloc = malloc and a = "malloc h" and junk = junk and x = x, OF assms(1) refl False] OpPush
      by (auto simp: pframes_op_step_def pframes_sim_def) metis
  qed
next
  case (OpPop n)
  then show ?thesis using pframes_pop_inv[OF assms(1), of n]
    by (auto simp: pframes_op_step_def pframes_sim_def) metis
next
  case OpSize
  then show ?thesis using pframes_size_inv[OF assms(1)] assms(1)
    by (auto simp: pframes_op_step_def pframes_sim_def)
next
  case (OpGet i)
  then show ?thesis using pframes_get_feature_inv[OF assms(1), of i] assms(1)
    by (auto simp: pframes_op_step_def pframes_sim_def split: sum.splits)
qed

lemma pframes_op_run_sim:
  assumes "pframes_inv h s as" "malloc_ok malloc"
  shows "\<exists>r. pframes_op_run malloc junk h s ops = Some r \<and>
     pframes_sim r (frames_op_run (pframes_abs h s as) ops)"
  using assms(1)
proof (induction ops arbitrary: h s as)
  case Nil
  then show ?case by (auto simp: pframes_sim_def)
next
  case (Cons op ops)
  obtain r where r: "pframes_op_step malloc junk h s op = Some r"
    "pframes_sim r (frames_op_step (pframes_abs h s as) op)"
    using pframes_op_step_sim[OF Cons.prems assms(2)] by blast
  show ?case
  proof (cases r)
    case (Inl e)
    then show ?thesis using r by (auto simp: pframes_sim_def)
  next
    case (Inr t)
    then obtain h' s' out as' where t: "r = Inr (h', s', out)" "pframes_inv h' s' as'"
      "frames_op_step (pframes_abs h s as) op = Inr (pframes_abs h' s' as', out)"
      using r(2) by (auto simp: pframes_sim_def)
    obtain r' where r': "pframes_op_run malloc junk h' s' ops = Some r'"
      "pframes_sim r' (frames_op_run (pframes_abs h' s' as') ops)"
      using Cons.IH[OF t(2)] by blast
    show ?thesis using r(1) t(1,3) r' by (auto simp: pframes_sim_def split: sum.splits)
  qed
qed

subsection \<open>Properties\<close>

text \<open>
  C10. Data refinement of the frame store: on a heap holding exactly a
  well-formed chain, and for any allocator that keeps the \<open>malloc\<close> contract, every
  sequence of pushes, pops, counts and reads ends (the pointer walks do not cycle), never
  loads through \<open>NULL\<close> or a freed frame, and returns what the list model of
  \<open>KNF_Frames\<close> returns: the same outputs and a well-formed store whose abstraction is the
  list model's result, or the list model's error, or an allocation failure.
\<close>

theorem pframes_run_refines:
  assumes "pframes_inv h s as" and "malloc_ok malloc"
  shows "\<exists>r. pframes_op_run malloc junk h s ops = Some r \<and>
     pframes_sim r (frames_op_run (pframes_abs h s as) ops)"
  using pframes_op_run_sim[OF assms] .

theorem pframes_run_refines_witness:
  "\<exists>r. pframes_op_run (\<lambda>h. if h 1 = None then 1 else if h 2 = None then 2 else 0)
        \<lparr>frame_feature = 0 :: int, frame_next = 7\<rparr> Map.empty pframes_init
        [OpPush 10, OpPush 20, OpPop 1, OpGet 1, OpSize] = Some r \<and>
     pframes_sim r (frames_op_run (pframes_abs Map.empty pframes_init []) 
        [OpPush 10, OpPush 20, OpPop 1, OpGet 1, OpSize])"
  by (rule pframes_run_refines) (simp_all add: pframes_inv_def pframes_init_def malloc_ok_def)

lemma pframes_run_example:
  "map_option (map_sum id (\<lambda>(h, s, outs). outs))
     (pframes_op_run (\<lambda>h. if h 1 = None then 1 else if h 2 = None then 2 else 0)
        \<lparr>frame_feature = 0 :: int, frame_next = 7\<rparr> Map.empty pframes_init
        [OpPush 10, OpPush 20, OpPop 1, OpGet 1, OpSize]) =
   Some (Inr [OutNone, OutNone, OutNone, OutFrame 20, OutSize 2])"
  by code_simp

text \<open>
  C11. No leak over the lifetime of a frame store: after any
  sequence of operations from \<open>frames_init\<close> that does not abort, \<open>frames_deinit\<close> (as
  called by \<open>knf_destroy\<close>) ends, loads no bad pointer and frees every frame, leaving the
  heap empty.
\<close>

theorem pframes_lifetime_no_leak:
  assumes "malloc_ok malloc"
    and "pframes_op_run malloc junk Map.empty pframes_init ops = Some (Inr (h, s, outs))"
  shows "pframes_deinit h s = Some (Inr (Map.empty, s\<lparr>proot := 0\<rparr>))"
proof -
  have "pframes_inv (Map.empty :: 'f heap) pframes_init []"
    by (simp add: pframes_inv_def pframes_init_def)
  then obtain as where "pframes_inv h s as"
    using pframes_op_run_sim[OF _ assms(1), of Map.empty pframes_init "[]" junk ops] assms(2)
    by (auto simp: pframes_sim_def)
  then show ?thesis by (rule pframes_deinit_inv)
qed

theorem pframes_lifetime_no_leak_witness:
  "\<exists>h s outs. pframes_op_run (\<lambda>h. if h 1 = None then 1 else if h 2 = None then 2 else 0)
        \<lparr>frame_feature = 0 :: int, frame_next = 7\<rparr> Map.empty pframes_init
        [OpPush 10, OpPush 20, OpPop 1, OpGet 1, OpSize] = Some (Inr (h, s, outs)) \<and>
     pframes_deinit h s = Some (Inr (Map.empty, s\<lparr>proot := 0\<rparr>))"
proof -
  let ?m = "\<lambda>h :: int heap. if h 1 = None then 1 else if h 2 = None then 2 else (0::nat)"
  have m: "malloc_ok ?m" by (simp add: malloc_ok_def)
  obtain h s outs where r: "pframes_op_run ?m \<lparr>frame_feature = 0 :: int, frame_next = 7\<rparr> Map.empty
      pframes_init [OpPush 10, OpPush 20, OpPop 1, OpGet 1, OpSize] = Some (Inr (h, s, outs))"
    using pframes_run_example by (auto split: option.splits sum.splits prod.splits)
  show ?thesis using pframes_lifetime_no_leak[OF m r] r by blast
qed

end
