(* ===== verification/KNF_Bench.thy ===== *)
theory KNF_Bench
  imports KNF_Stream
begin

text \<open>
  The benchmark harness \<open>src/bench.cpp\<close> as a client of the engine.  It creates an
  engine with \<open>knf_create(16000, 80)\<close>, seeds the generator with \<open>srand48(1337)\<close>,
  then ten times fills a buffer of \<open>N = 16000 * 1000\<close> samples with \<open>drand48()\<close>,
  passes it to \<open>knf_accept_waveform\<close> and calls \<open>knf_pop(k2, N)\<close>.  The engine calls
  are \<open>knf_call\<close>s run by \<open>knf_run\<close>; \<open>srand48\<close>/\<open>drand48\<close> (from the C library, not
  under \<open>src/\<close>) are modelled from their specification as the 48-bit linear
  congruential generator on \<open>48 word\<close>, its state threaded through the rounds; the
  conversion of each \<open>double\<close> to \<open>float\<close> is exact, as everywhere in the development.
  The kaldi-native-fbank object \<open>k1\<close>, \<open>clock_gettime\<close> and \<open>printf\<close> only measure
  time and are not modelled.  The theory shows that the run never aborts, that after
  every round the pop leaves no frame retained (the frames a round produces never
  exceed \<open>N\<close>), and what the engine holds at the end.
\<close>

unbundle bit_operations_syntax

text \<open>\<open>#define N (16000*1000)\<close>\<close>

definition bench_N :: nat where
  "bench_N = 16000 * 1000"

text \<open>One iteration of the loop, on \<open>k2\<close>: \<open>knf_accept_waveform(k2, 16000, samples, N); ... knf_pop(k2, N);\<close>\<close>

definition bench_round :: "real list \<Rightarrow> knf_call list" where
  "bench_round samples = [AcceptWaveform 16000 samples, Pop (int bench_N)]"

text \<open>
  \<open>srand48(seedval)\<close>: the state becomes the low 32 bits of the seed followed by
  \<open>0x330E\<close>.  \<open>drand48()\<close>: \<open>X := 0x5DEECE66D * X + 0xB mod 2\<^sup>4\<^sup>8\<close>, returned as
  \<open>X / 2\<^sup>4\<^sup>8\<close>.
\<close>

definition srand48 :: "int \<Rightarrow> 48 word" where
  "srand48 seedval = push_bit 16 (ucast (word_of_int seedval :: 32 word)) OR 0x330E"

definition drand48_step :: "48 word \<Rightarrow> 48 word" where
  "drand48_step x = 0x5DEECE66D * x + 0xB"

definition drand48_value :: "48 word \<Rightarrow> real" where
  "drand48_value x = real (unat x) / 2 ^ 48"

text \<open>\<open>for (int i = 0; i < N; i++) samples[i] = drand48();\<close>\<close>

fun drand48_fill :: "nat \<Rightarrow> 48 word \<Rightarrow> real list \<times> 48 word" where
  "drand48_fill 0 x = ([], x)"
| "drand48_fill (Suc n) x =
     (let x' = drand48_step x; (rest, x'') = drand48_fill n x' in (drand48_value x' # rest, x''))"

text \<open>The loop \<open>for (int i = 0; i < 10; i++) { ... }\<close> on \<open>k2\<close>, counting down the rounds left.\<close>

fun bench_loop :: "nat \<Rightarrow> 48 word \<Rightarrow> knf \<Rightarrow> knf_error + knf" where
  "bench_loop 0 x k2 = Inr k2"
| "bench_loop (Suc i) x k2 =
     (let (samples, x') = drand48_fill bench_N x
      in case knf_run k2 (bench_round samples) of
           Inl e \<Rightarrow> Inl e
         | Inr k2' \<Rightarrow> bench_loop i x' k2')"

text \<open>\<open>main\<close>: \<open>k2 = knf_create(16000, 80); srand48(1337);\<close> and the ten rounds.\<close>

definition bench_main :: "knf_error + knf" where
  "bench_main =
     (case knf_create 16000 80 of
        Inl e \<Rightarrow> Inl e
      | Inr k2 \<Rightarrow> bench_loop 10 (srand48 1337) k2)"


subsection \<open>The generator\<close>

lemma drand48_value_range: "0 \<le> drand48_value x \<and> drand48_value x < 1"
proof -
  have "unat x < 2 ^ 48" using unsigned_less[of x] by simp
  then have "real (unat x) < real ((2::nat) ^ 48)" by (simp only: of_nat_less_iff)
  moreover have "0 \<le> real (unat x)" by (rule of_nat_0_le_iff)
  ultimately show ?thesis by (simp add: drand48_value_def)
qed

lemma drand48_fill_Suc:
  "drand48_fill (Suc n) x =
     (drand48_value (drand48_step x) # fst (drand48_fill n (drand48_step x)),
      snd (drand48_fill n (drand48_step x)))"
  by (cases "drand48_fill n (drand48_step x)") (simp add: Let_def)

lemma drand48_fill_length: "length (fst (drand48_fill n x)) = n"
  by (induction n arbitrary: x) (simp_all add: drand48_fill_Suc del: drand48_fill.simps(2))

lemma drand48_fill_range: "set (fst (drand48_fill n x)) \<subseteq> {0..<1}"
  by (induction n arbitrary: x) (simp_all add: drand48_fill_Suc drand48_value_range del: drand48_fill.simps(2))

lemma drand48_fill_add:
  "drand48_fill (m + n) x =
     (fst (drand48_fill m x) @ fst (drand48_fill n (snd (drand48_fill m x))),
      snd (drand48_fill n (snd (drand48_fill m x))))"
  by (induction m arbitrary: x) (simp_all add: drand48_fill_Suc del: drand48_fill.simps(2))


lemma knf_run_append:
  "knf_run s (cs @ ds) = (case knf_run s cs of Inl e \<Rightarrow> Inl e | Inr s' \<Rightarrow> knf_run s' ds)"
  by (induction s cs rule: knf_run.induct) (auto split: sum.splits)

lemma bench_calc_num_frames:
  "calc_num_frames (int (r * bench_N)) 160 400 False = (if r = 0 then 0 else 100000 * int r - 1)"
proof -
  have a: "(int (r * bench_N) + 160 div 2) div 160 = 100000 * int r"
    by (simp add: bench_N_def)
  have b: "(int (r * bench_N) - frame_end0 160 400) div 160 + 1 = 100000 * int r - 1"
    by (simp add: bench_N_def frame_end0_def)
  show ?thesis
    using a b by (simp add: calc_num_frames_closed Let_def)
qed

lemma bench_round_step:
  assumes inv: "knf_inv xs s" and fin: "\<not> input_finished s" and sr: "sample_rate s = 16000"
    and cfg: "window_shift s = 160" "window_size s = 400" and empty: "root (frames s) = []"
    and len: "length xs = r * bench_N" "length ys = bench_N"
  shows "\<exists>s'. knf_run s (bench_round ys) = Inr s' \<and> knf_inv (xs @ ys) s' \<and>
     \<not> input_finished s' \<and> knf_params s' = knf_params s \<and> root (frames s') = []"
proof -
  obtain s1 where s1: "knf_accept_waveform s 16000 ys = Inr s1" "knf_inv (xs @ ys) s1"
      "base_index (frames s1) = base_index (frames s)"
      "s1 = s\<lparr>frames := frames s1, waveform_offset := waveform_offset s1,
            waveform_remainder := waveform_remainder s1\<rparr>"
    using knf_accept_inv[OF inv fin sr[symmetric], of ys] by auto
  have p1: "knf_params s1 = knf_params s" "input_finished s1 = input_finished s"
    "window_shift s1 = 160" "window_size s1 = 400"
    using arg_cong[OF s1(4), of knf_params] arg_cong[OF s1(4), of input_finished]
      arg_cong[OF s1(4), of window_shift] arg_cong[OF s1(4), of window_size] cfg by simp_all
  have base: "base_index (frames s) = calc_num_frames (int (r * bench_N)) 160 400 False"
    using inv fin cfg empty len by (simp add: knf_inv_def frames_size_eq)
  have size1: "frames_size (frames s1) = calc_num_frames (int ((Suc r) * bench_N)) 160 400 False"
    using s1(2) p1 fin len by (simp add: knf_inv_def add.commute)
  have "int (length (root (frames s1))) = frames_size (frames s1) - base_index (frames s1)"
    by (simp add: frames_size_eq)
  also have "\<dots> \<le> 100000"
    unfolding size1 s1(3) base bench_calc_num_frames by simp
  finally have "length (root (frames s1)) \<le> bench_N" by (simp add: bench_N_def)
  then have "root (frames (knf_pop s1 (int bench_N))) = []"
    by (simp add: knf_pop_def frames_pop_root)
  moreover have "knf_inv (xs @ ys) (knf_pop s1 (int bench_N))" using knf_pop_inv[OF s1(2)] .
  ultimately show ?thesis using s1(1) p1 fin
    by (simp add: bench_round_def knf_accept_waveform_def knf_pop_def knf_params_def)
qed

lemma bench_loop_inv:
  assumes inv: "knf_inv xs k" and fin: "\<not> input_finished k" and sr: "sample_rate k = 16000"
    and cfg: "window_shift k = 160" "window_size k = 400" and empty: "root (frames k) = []"
    and len: "length xs = j * bench_N"
  shows "\<exists>s. bench_loop r x k = Inr s \<and> knf_inv (xs @ fst (drand48_fill (r * bench_N) x)) s \<and>
     \<not> input_finished s \<and> knf_params s = knf_params k \<and> root (frames s) = []"
  using assms
proof (induction r arbitrary: x k xs j)
  case 0
  then show ?case by simp
next
  case (Suc r)
  obtain ys x' where f: "drand48_fill bench_N x = (ys, x')" by (cases "drand48_fill bench_N x")
  have ly: "length ys = bench_N" using drand48_fill_length[of bench_N x] f by simp
  obtain k' where k': "knf_run k (bench_round ys) = Inr k'" "knf_inv (xs @ ys) k'"
      "\<not> input_finished k'" "knf_params k' = knf_params k" "root (frames k') = []"
    using bench_round_step[OF Suc.prems(1-7) ly] by blast
  have p: "sample_rate k' = 16000" "window_shift k' = 160" "window_size k' = 400"
    using k'(4) Suc.prems(3-5) by (simp_all add: knf_params_def)
  have "length (xs @ ys) = Suc j * bench_N" using Suc.prems(7) ly by simp
  then obtain s where s: "bench_loop r x' k' = Inr s"
      "knf_inv ((xs @ ys) @ fst (drand48_fill (r * bench_N) x')) s"
      "\<not> input_finished s" "knf_params s = knf_params k'" "root (frames s) = []"
    using Suc.IH[OF k'(2) k'(3) p k'(5)] by blast
  have "fst (drand48_fill (Suc r * bench_N) x) = ys @ fst (drand48_fill (r * bench_N) x')"
    using drand48_fill_add[of bench_N "r * bench_N" x] f by simp
  then show ?case using s k' f by simp
qed

subsection \<open>Properties\<close>

text \<open>
  C12. The benchmark's engine run never aborts: from \<open>srand48(1337)\<close>, the ten
  buffers of \<open>N\<close> \<open>drand48\<close> samples (all in \<open>[0, 1)\<close>) are accepted and popped
  without an assert failing; the engine then satisfies the stream invariant for the
  160,000,000 samples generated, reports 999,999 frames produced, retains none (each
  round's \<open>knf_pop(k2, N)\<close> evicts all the round produced), and its sample counter
  \<open>waveform_offset + waveform_remainder_size\<close> is \<open>10 * N\<close>, far below \<open>INT_MAX\<close>.
\<close>

theorem bench_main_runs:
  "\<exists>s. bench_main = Inr s \<and>
     knf_inv (fst (drand48_fill (10 * bench_N) (srand48 1337))) s \<and>
     set (fst (drand48_fill (10 * bench_N) (srand48 1337))) \<subseteq> {0..<1} \<and>
     knf_num_frames_ready s = 999999 \<and> root (frames s) = [] \<and>
     waveform_offset s + int (length (waveform_remainder s)) = int (10 * bench_N)"
proof -
  let ?xs = "fst (drand48_fill (10 * bench_N) (srand48 1337))"
  obtain k2 where k2: "knf_create 16000 80 = Inr k2" "knf_inv [] k2" "sample_rate k2 = 16000"
      "window_shift k2 = 160" "window_size k2 = 400" "\<not> input_finished k2"
    using knf_16k_start by blast
  have "root (frames k2) = []" using knf_create_Inr[OF k2(1)] by (simp add: frames_init_def)
  then obtain s where s: "bench_loop 10 (srand48 1337) k2 = Inr s" "knf_inv ?xs s"
      "\<not> input_finished s" "knf_params s = knf_params k2" "root (frames s) = []"
    using bench_loop_inv[OF k2(2) k2(6) k2(3-5), of 0, of 10 "srand48 1337"] by auto
  have lx: "length ?xs = 10 * bench_N" by (rule drand48_fill_length)
  have p: "window_shift s = 160" "window_size s = 400" using s(4) k2 by (simp_all add: knf_params_def)
  have "knf_num_frames_ready s = calc_num_frames (int (10 * bench_N)) 160 400 False"
    using knf_inv_ready[OF s(2)] lx s(3) p by simp
  also have "\<dots> = 999999" by (simp only: bench_calc_num_frames) simp
  finally have "knf_num_frames_ready s = 999999" .
  moreover have "waveform_offset s + int (length (waveform_remainder s)) = int (10 * bench_N)"
  proof -
    have "0 \<le> waveform_offset s" "waveform_offset s \<le> int (10 * bench_N)"
      "waveform_remainder s = drop (nat (waveform_offset s)) ?xs"
      using s(2) lx by (simp_all add: knf_inv_def)
    then show ?thesis using lx by (simp add: of_nat_diff nat_le_iff)
  qed
  ultimately show ?thesis using s k2 drand48_fill_range[of "10 * bench_N" "srand48 1337"]
    by (simp add: bench_main_def)
qed

end
