(* ===== verification/KNF_Int32.thy ===== *)
theory KNF_Int32
  imports KNF_Engine
begin

text \<open>
  The 32-bit \<open>int\<close> arithmetic of the frame counting in \<open>src/knf.c\<close>.  The engine
  theories count samples and frames with unbounded integers; here
  \<open>calc_first_sample\<close>, \<open>calc_num_frames\<close> and the sample total of
  \<open>compute_features\<close> are taken at 32 bits, each \<open>int\<close> result wrapped to
  \<open>[-2\<^sup>3\<^sup>1, 2\<^sup>3\<^sup>1)\<close> (\<open>i32\<close>, through \<open>32 word\<close> and \<open>sint\<close>).  C leaves signed overflow
  undefined; the model takes the two's-complement wrap that the usual targets produce.
  The lemmas show that the 32-bit computation agrees with the unbounded one while the
  samples seen plus two windows stay below \<open>INT_MAX\<close>, and that once the total passes
  \<open>INT_MAX\<close> it wraps negative, \<open>calc_num_frames\<close> returns a negative count and the
  \<open>assert(num_frames_new >= num_frames_old)\<close> aborts.
\<close>

text \<open>The value a C \<open>int\<close> holds after an operation: the two's-complement wrap of the
  mathematical result to 32 bits.\<close>

definition i32 :: "int \<Rightarrow> int" where
  "i32 x = sint (word_of_int x :: 32 word)"

text \<open>\<open>calc_first_sample\<close> (lines 9--14) with every \<open>int\<close> operation wrapped.\<close>

definition calc_first_sample_i32 :: "int \<Rightarrow> int \<Rightarrow> int \<Rightarrow> int" where
  "calc_first_sample_i32 index window_shift' window_size' =
     (let midpoint_of_frame = i32 (i32 (window_shift' * index) + window_shift' sdiv 2);
          beginning_of_frame = i32 (midpoint_of_frame - window_size' sdiv 2)
      in beginning_of_frame)"

text \<open>The decrement loop of \<open>calc_num_frames\<close>: \<open>num_frames--\<close> runs only while
  \<open>num_frames > 0\<close> and cannot wrap; \<open>end_sample_of_last_frame -= window_shift\<close> can.\<close>

function num_frames_loop_i32 :: "int \<Rightarrow> int \<Rightarrow> int \<Rightarrow> int \<Rightarrow> int" where
  "num_frames_loop_i32 num_samples window_shift' num_frames end_sample_of_last_frame =
     (if num_frames > 0 \<and> end_sample_of_last_frame > num_samples
      then num_frames_loop_i32 num_samples window_shift' (num_frames - 1)
             (i32 (end_sample_of_last_frame - window_shift'))
      else num_frames)"
  by pat_completeness auto
termination
  by (relation "measure (\<lambda>(_, _, nf, _). nat nf)") auto

declare num_frames_loop_i32.simps [simp del]

definition calc_num_frames_i32 :: "int \<Rightarrow> int \<Rightarrow> int \<Rightarrow> bool \<Rightarrow> int" where
  "calc_num_frames_i32 num_samples window_shift' window_size' flush =
     (let num_frames = i32 (i32 (num_samples + window_shift' sdiv 2) sdiv window_shift')
      in if flush then num_frames
         else num_frames_loop_i32 num_samples window_shift' num_frames
                (i32 (calc_first_sample_i32 (i32 (num_frames - 1)) window_shift' window_size' + window_size')))"

text \<open>
  \<open>compute_features\<close> with \<open>int num_samples_total = s->waveform_offset +
  s->waveform_remainder_size\<close> and \<open>calc_num_frames\<close> at 32 bits.  The frame loop
  and the trimming are those of \<open>KNF_Engine\<close>: their values lie between \<open>- window_size\<close>
  and \<open>num_samples_total + window_size\<close>, so they wrap only after the sum has.
\<close>

definition compute_features_i32 :: "knf \<Rightarrow> knf_error + knf" where
  "compute_features_i32 s =
     (let num_frames_old = frames_size (frames s);
          num_samples_total = i32 (waveform_offset s + int (length (waveform_remainder s)));
          num_frames_new = calc_num_frames_i32 num_samples_total (window_shift s) (window_size s)
                             (input_finished s)
      in if \<not> (num_frames_new \<ge> num_frames_old) then Inl FramesDecrease
         else case compute_loop s num_frames_old num_frames_new of
                Inl e \<Rightarrow> Inl e
              | Inr s' \<Rightarrow> Inr (trim_remainder s' num_frames_new))"

subsection \<open>Agreement below \<open>INT_MAX\<close>\<close>

lemma i32_id: "- (2 ^ 31) \<le> x \<Longrightarrow> x < 2 ^ 31 \<Longrightarrow> i32 x = x"
  by (simp add: i32_def sint_sbintrunc' signed_take_bit_int_eq_self)

lemma i32_minus_2p32: "i32 (x - 2 ^ 32) = i32 x"
proof -
  have "(word_of_int (x - 2 ^ 32) :: 32 word) = word_of_int x"
    by (simp add: of_int_diff)
  then show ?thesis unfolding i32_def by (simp only:)
qed

lemma i32_wrap: "2 ^ 31 \<le> x \<Longrightarrow> x < 2 ^ 32 + 2 ^ 31 \<Longrightarrow> i32 x = x - 2 ^ 32"
  using i32_minus_2p32[of x] i32_id[of "x - 2 ^ 32"] by simp

lemma calc_first_sample_i32_eq:
  assumes "0 \<le> sh" "0 \<le> W" "W - 2 ^ 31 \<le> sh * k" "sh * k + sh < 2 ^ 31"
  shows "calc_first_sample_i32 k sh W = calc_first_sample k sh W"
proof -
  have "sh div 2 \<le> sh" "0 \<le> sh div 2" "W div 2 \<le> W" "0 \<le> W div 2" using assms by auto
  then show ?thesis using assms
    by (simp add: calc_first_sample_i32_def calc_first_sample_def i32_id)
qed

lemma num_frames_loop_i32_eq:
  "0 < sh \<Longrightarrow> sh - 2 ^ 31 \<le> ns \<Longrightarrow> e < 2 ^ 31 \<Longrightarrow>
   num_frames_loop_i32 ns sh nf e = num_frames_loop ns sh nf e"
proof (induction ns sh nf e rule: num_frames_loop.induct)
  case (1 ns sh nf e)
  show ?case
  proof (cases "nf > 0 \<and> e > ns")
    case True
    then have "i32 (e - sh) = e - sh" using "1.prems" by (intro i32_id) auto
    then show ?thesis using "1.IH"[OF True] "1.prems" True
      by (simp add: num_frames_loop_i32.simps[of ns sh nf e] num_frames_loop.simps[of ns sh nf e])
  next
    case False
    then show ?thesis
      by (simp only: num_frames_loop_i32.simps[of ns sh nf e] num_frames_loop.simps[of ns sh nf e]
          if_not_P[OF False] if_False)
  qed
qed

lemma calc_num_frames_i32_eq:
  assumes sh: "0 < sh" "2 * sh \<le> W" and ns: "0 \<le> ns" "ns + 2 * W < 2 ^ 31"
  shows "calc_num_frames_i32 ns sh W fl = calc_num_frames ns sh W fl"
proof -
  let ?a = "ns + sh div 2"
  let ?nf = "?a div sh"
  have a: "0 \<le> ?a" "?a < 2 ^ 31" using sh ns by auto
  have "?nf \<le> ?a" using a(1) int_div_le_self[of ?a sh] by (cases "?a = 0") auto
  moreover have "sh * ?nf \<le> ?a"
    using minus_mod_eq_mult_div[of ?a sh] pos_mod_sign[of sh ?a] sh by linarith
  ultimately have nf: "0 \<le> ?nf" "sh * ?nf \<le> ?a" "?nf \<le> ?a"
    using a sh by (auto simp: pos_imp_zdiv_nonneg_iff)
  have eq: "sh sdiv 2 = sh div 2" "?a sdiv sh = ?nf" using a sh by simp_all
  have i1: "i32 ?a = ?a" using a by (simp add: i32_id)
  have i2: "i32 ?nf = ?nf" using a nf by (simp add: i32_id)
  have i3: "i32 (?nf - 1) = ?nf - 1" using nf a by (simp add: i32_id)
  have mult: "sh * (?nf - 1) = sh * ?nf - sh" "0 \<le> sh * ?nf"
    using sh nf by (simp_all add: algebra_simps)
  have c1: "W - 2 ^ 31 \<le> sh * (?nf - 1)" using mult sh ns by linarith
  have c2: "sh * (?nf - 1) + sh < 2 ^ 31" using mult nf a by linarith
  have c: "calc_first_sample_i32 (?nf - 1) sh W = calc_first_sample (?nf - 1) sh W"
    by (rule calc_first_sample_i32_eq[OF _ _ c1 c2]) (use sh in auto)
  have e: "calc_first_sample (?nf - 1) sh W + W = sh * ?nf - sh + sh div 2 - W div 2 + W"
    using sh mult by (simp add: calc_first_sample_eq)
  have hv: "0 \<le> sh div 2" "sh div 2 \<le> sh" "0 \<le> W div 2" "W div 2 \<le> W" using sh by auto
  have i4: "i32 (calc_first_sample (?nf - 1) sh W + W) = calc_first_sample (?nf - 1) sh W + W"
    by (intro i32_id) (use e sh ns nf mult hv in linarith)+
  have l: "num_frames_loop_i32 ns sh ?nf (calc_first_sample (?nf - 1) sh W + W) =
      num_frames_loop ns sh ?nf (calc_first_sample (?nf - 1) sh W + W)"
    by (intro num_frames_loop_i32_eq) (use e sh ns nf mult hv in linarith)+
  show ?thesis
    unfolding calc_num_frames_i32_def calc_num_frames_def Let_def eq i1 i2 i3 c i4 l ..
qed

lemma compute_features_i32_eq:
  assumes "knf_cfg_ok s" "0 \<le> waveform_offset s"
    "waveform_offset s + int (length (waveform_remainder s)) + 2 * window_size s < 2 ^ 31"
  shows "compute_features_i32 s = compute_features s"
proof -
  have i: "i32 (waveform_offset s + int (length (waveform_remainder s))) =
      waveform_offset s + int (length (waveform_remainder s))"
    using assms by (intro i32_id) (auto simp: knf_cfg_ok_def)
  have c: "calc_num_frames_i32 (waveform_offset s + int (length (waveform_remainder s)))
      (window_shift s) (window_size s) (input_finished s) =
    calc_num_frames (waveform_offset s + int (length (waveform_remainder s)))
      (window_shift s) (window_size s) (input_finished s)"
    using assms by (intro calc_num_frames_i32_eq) (auto simp: knf_cfg_ok_def)
  show ?thesis unfolding compute_features_i32_def compute_features_def Let_def i c ..
qed

subsection \<open>The wrap past \<open>INT_MAX\<close>\<close>

lemma sdiv_neg_le:
  assumes "a < 0" "0 < (b::int)" "b \<le> - a"
  shows "a sdiv b \<le> -1" "a \<le> a sdiv b"
proof -
  have d: "a sdiv b = - ((- a) div b)" using assms by (simp add: signed_divide_int_def)
  have "1 \<le> (- a) div b" using assms by (simp add: int_le_div_iff)
  moreover have "(- a) div b \<le> - a" using assms int_div_le_self[of "- a" b] by simp
  ultimately show "a sdiv b \<le> -1" "a \<le> a sdiv b" using d by simp_all
qed

lemma num_frames_loop_i32_nonpos:
  assumes "nf \<le> 0"
  shows "num_frames_loop_i32 ns sh nf e = nf"
proof -
  have "\<not> (nf > 0 \<and> e > ns)" using assms by simp
  then show ?thesis by (simp only: num_frames_loop_i32.simps[of ns sh nf e] if_not_P if_False)
qed

lemma compute_features_i32_wraps:
  assumes sh: "0 < window_shift s" "window_shift s \<le> 2 ^ 29" and base: "0 \<le> base_index (frames s)"
    and tot: "2 ^ 31 \<le> waveform_offset s + int (length (waveform_remainder s))"
      "waveform_offset s + int (length (waveform_remainder s)) \<le> 2 ^ 32 - 2 ^ 30"
  shows "compute_features_i32 s = Inl FramesDecrease"
proof -
  let ?t = "waveform_offset s + int (length (waveform_remainder s))"
  let ?sh = "window_shift s"
  let ?a = "(?t - 2 ^ 32) + ?sh div 2"
  have hv: "0 \<le> ?sh div 2" "?sh div 2 \<le> ?sh" using sh by auto
  have num: "(2::int) ^ 32 = 4294967296" "(2::int) ^ 31 = 2147483648" "(2::int) ^ 30 = 1073741824"
    "(2::int) ^ 29 = 536870912" by simp_all
  have w: "i32 ?t = ?t - 2 ^ 32" using tot num by (intro i32_wrap) linarith+
  have a: "?a < 0" "- (2 ^ 31) \<le> ?a" "?sh \<le> - ?a" using tot sh hv num by linarith+
  have eq: "?sh sdiv 2 = ?sh div 2" using sh by simp
  have i1: "i32 ?a = ?a" using a num by (intro i32_id) linarith+
  have nf: "?a sdiv ?sh \<le> -1" "?a \<le> ?a sdiv ?sh" using sdiv_neg_le[OF a(1) sh(1) a(3)] by simp_all
  have i2: "i32 (?a sdiv ?sh) = ?a sdiv ?sh" using nf a num by (intro i32_id) linarith+
  have l: "num_frames_loop_i32 (?t - 2 ^ 32) ?sh (?a sdiv ?sh) e = ?a sdiv ?sh" for e
    using nf by (intro num_frames_loop_i32_nonpos) linarith
  have new: "calc_num_frames_i32 (i32 ?t) ?sh (window_size s) (input_finished s) = ?a sdiv ?sh"
    unfolding calc_num_frames_i32_def Let_def w eq i1 i2 l by simp
  have "0 \<le> frames_size (frames s)" using base by (simp add: frames_size_eq)
  then have "\<not> (?a sdiv ?sh \<ge> frames_size (frames s))" using nf by linarith
  then show ?thesis unfolding compute_features_i32_def Let_def new by (simp only: not_False_eq_True if_True)
qed

subsection \<open>Properties\<close>

text \<open>
  C13. With 32-bit \<open>int\<close> counters \<open>compute_features\<close> behaves as the
  unbounded model while the samples seen plus two windows stay below \<open>INT_MAX\<close>; once
  \<open>waveform_offset + waveform_remainder_size\<close> passes \<open>INT_MAX\<close> (about 37 hours of
  audio at 16 kHz) the sum wraps negative and the call aborts with \<open>FramesDecrease\<close>.
\<close>

theorem compute_features_int32:
  assumes "knf_cfg_ok s" and "0 \<le> waveform_offset s" and "0 \<le> base_index (frames s)"
    and "window_shift s \<le> 2 ^ 29"
  shows "(waveform_offset s + int (length (waveform_remainder s)) + 2 * window_size s < 2 ^ 31 \<longrightarrow>
       compute_features_i32 s = compute_features s) \<and>
    (2 ^ 31 \<le> waveform_offset s + int (length (waveform_remainder s)) \<and>
     waveform_offset s + int (length (waveform_remainder s)) \<le> 2 ^ 32 - 2 ^ 30 \<longrightarrow>
       compute_features_i32 s = Inl FramesDecrease)"
  using compute_features_i32_eq[OF assms(1,2)] compute_features_i32_wraps[OF _ assms(4,3)] assms(1)
  by (auto simp: knf_cfg_ok_def)

theorem compute_features_int32_witness:
  "compute_features_i32 \<lparr>sample_rate = 1, window_shift = 2, window_size = 4, window_size_padded = 4,
      frames = frames_init, window = [1, 1, 1, 1], fbank = \<lparr>fb_size = 4, bins = []\<rparr>,
      input_finished = False, waveform_offset = 0, waveform_remainder = [0, 0, 0, 0]\<rparr> =
   compute_features \<lparr>sample_rate = 1, window_shift = 2, window_size = 4, window_size_padded = 4,
      frames = frames_init, window = [1, 1, 1, 1], fbank = \<lparr>fb_size = 4, bins = []\<rparr>,
      input_finished = False, waveform_offset = 0, waveform_remainder = [0, 0, 0, 0]\<rparr> \<and>
   compute_features_i32 \<lparr>sample_rate = 1, window_shift = 2, window_size = 4, window_size_padded = 4,
      frames = frames_init, window = [1, 1, 1, 1], fbank = \<lparr>fb_size = 4, bins = []\<rparr>,
      input_finished = False, waveform_offset = 2 ^ 31, waveform_remainder = [0]\<rparr> = Inl FramesDecrease"
proof
  show "compute_features_i32 \<lparr>sample_rate = 1, window_shift = 2, window_size = 4, window_size_padded = 4,
      frames = frames_init, window = [1, 1, 1, 1], fbank = \<lparr>fb_size = 4, bins = []\<rparr>,
      input_finished = False, waveform_offset = 0, waveform_remainder = [0, 0, 0, 0]\<rparr> =
   compute_features \<lparr>sample_rate = 1, window_shift = 2, window_size = 4, window_size_padded = 4,
      frames = frames_init, window = [1, 1, 1, 1], fbank = \<lparr>fb_size = 4, bins = []\<rparr>,
      input_finished = False, waveform_offset = 0, waveform_remainder = [0, 0, 0, 0]\<rparr>"
    using compute_features_int32[of "\<lparr>sample_rate = 1, window_shift = 2, window_size = 4,
      window_size_padded = 4, frames = frames_init, window = [1, 1, 1, 1],
      fbank = \<lparr>fb_size = 4, bins = []\<rparr>, input_finished = False, waveform_offset = 0,
      waveform_remainder = [0, 0, 0, 0]\<rparr>"]
    by (simp add: knf_cfg_ok_def frames_init_def)
  show "compute_features_i32 \<lparr>sample_rate = 1, window_shift = 2, window_size = 4, window_size_padded = 4,
      frames = frames_init, window = [1, 1, 1, 1], fbank = \<lparr>fb_size = 4, bins = []\<rparr>,
      input_finished = False, waveform_offset = 2 ^ 31, waveform_remainder = [0]\<rparr> = Inl FramesDecrease"
    using compute_features_int32[of "\<lparr>sample_rate = 1, window_shift = 2, window_size = 4,
      window_size_padded = 4, frames = frames_init, window = [1, 1, 1, 1],
      fbank = \<lparr>fb_size = 4, bins = []\<rparr>, input_finished = False, waveform_offset = 2 ^ 31,
      waveform_remainder = [0]\<rparr>"]
    by (simp add: knf_cfg_ok_def frames_init_def)
qed

end
