(* ===== verification/Spec2Isabelle.thy ===== *)
theory Spec2Isabelle
  imports KNF_Stream KNF_FrameHeap KNF_Bench KNF_Int32
begin

text \<open>
  \<^bold>\<open>Verification development for knf\<close> (\<open>src/knf.c\<close>, \<open>src/knf.h\<close>,
  \<open>src/bench.cpp\<close>), a streaming
  log-mel filterbank front end: audio samples arrive in chunks, are cut into
  overlapping windows (25 ms every 10 ms), and each window becomes 80 log mel
  energies.

  \<^bold>\<open>The program and its model.\<close>  The theories follow the parts of \<open>knf.c\<close>:
  \<^item> \<open>KNF_Prelude\<close>: the error type \<open>knf_error\<close> (one constructor per \<open>assert\<close> of the
    source: \<open>RateMismatch\<close>, \<open>OutOfRange\<close>, \<open>BadFeatureDim\<close>, \<open>EmptyMelBin\<close>,
    \<open>BadWaveform\<close>, \<open>OffsetPastFrame\<close>, \<open>FramesDecrease\<close>, and \<open>ReflectDiverges\<close> for
    a mirroring loop that would not return; \<open>AllocFailed\<close> for \<open>assert(frame)\<close> after
    \<open>malloc\<close> and \<open>BadPointer\<close> for a load through \<open>NULL\<close> or a freed frame), C
    division as \<open>sdiv\<close>, shared lemmas.
  \<^item> \<open>KNF_Framing\<close>: \<open>calc_first_sample\<close> and \<open>calc_num_frames\<close> (lines 9--31); the
    decrement loop is the terminating function \<open>num_frames_loop\<close>.
  \<^item> \<open>KNF_Frames\<close>: the frame store \<open>Frames\<close> (lines 235--305) as the list of retained
    frames with \<open>base_index\<close>; \<open>frames_size\<close>, \<open>frames_push\<close>, \<open>frames_pop\<close>,
    \<open>frames_get\<close>, each loop a recursive function.
  \<^item> \<open>KNF_FrameHeap\<close>: the same store at the level of its pointers: a heap of
    \<open>Frame\<close> cells (address \<open>0\<close> is \<open>NULL\<close>), the \<open>root\<close>, \<open>base_index\<close> and \<open>last\<close>
    fields, \<open>frame_alloc\<close> over any \<open>malloc\<close> that returns \<open>NULL\<close> or an unused address,
    \<open>free\<close>, \<open>frames_deinit\<close>, and the storing of a new frame in
    \<open>compute_features\<close> (lines 390--393).  The loops that follow \<open>next\<close> to \<open>NULL\<close>
    are \<open>partial_function (option)\<close>, since on a cyclic heap they would not end.  The
    calls the engine makes on its store are the datatype \<open>frames_op\<close>, run by both
    models (\<open>frames_op_run\<close>, \<open>pframes_op_run\<close>).
  \<^item> \<open>KNF_Window\<close>: \<open>window_init\<close>, \<open>remove_dc_offset\<close>, \<open>preemphasize\<close> and
    \<open>window_extract\<close> (lines 43--102); the mirroring \<open>while\<close> loop is the
    \<open>partial_function (option)\<close> \<open>reflect_index\<close>.
  \<^item> \<open>KNF_Fbank\<close>: \<open>MelScale\<close>, \<open>mel_init\<close> (the scan over FFT bins per filter, with the
    uninitialised scratch array \<open>this_bin\<close> threaded as state), \<open>fbank_init\<close> and
    \<open>fbank_compute\<close> (lines 110--227); FFTW's real-input transform is its defining
    sum \<open>rdft\<close>.
  \<^item> \<open>KNF_Engine\<close>: the \<open>KNF\<close> record, \<open>log2_int\<close>/\<open>ceil_log2_int\<close> on \<open>32 word\<close>,
    \<open>knf_create\<close>, \<open>compute_features\<close> (its frame loop \<open>compute_loop\<close> and the trimming
    \<open>trim_remainder\<close>) and the public operations of \<open>knf.h\<close>; the datatype
    \<open>knf_call\<close> with \<open>knf_step\<close> and \<open>knf_run\<close> for call sequences, and the inductive
    \<open>knf_reach\<close> of engines reachable by clients that respect the protocol.  It also
    holds the specification: \<open>stream_frame s xs k\<close> is frame \<open>k\<close> computed from the
    whole stream \<open>xs\<close>, mirrored at both of its ends, and \<open>knf_inv xs s\<close> relates an
    engine to the stream it has accepted.
  \<^item> \<open>KNF_Stream\<close>: the refinement proofs: extraction from the remainder reads the
    stream's window, the frame loop appends the specification's frames, trimming
    keeps the remainder a suffix of the stream, and every operation keeps
    \<open>knf_inv\<close>; then the properties of the operations and of \<open>knf_reach\<close>.
  \<^item> \<open>KNF_Int32\<close>: \<open>calc_first_sample\<close>, \<open>calc_num_frames\<close> and the sample total of
    \<open>compute_features\<close> with every \<open>int\<close> result wrapped to 32 bits (\<open>i32\<close>, via
    \<open>32 word\<close> and \<open>sint\<close>): the two's-complement behaviour of the signed overflow that
    C leaves undefined.
  \<^item> \<open>KNF_Bench\<close>: the engine calls of \<open>src/bench.cpp\<close> (\<open>knf_create(16000, 80)\<close>,
    \<open>srand48(1337)\<close>, then ten rounds of \<open>knf_accept_waveform\<close> of \<open>N = 16000 * 1000\<close>
    \<open>drand48\<close> samples and \<open>knf_pop(k2, N)\<close>), the rounds' calls as a \<open>knf_run\<close>;
    \<open>srand48\<close>/\<open>drand48\<close> (C library) are the 48-bit linear congruential generator on
    \<open>48 word\<close>, modelled from their specification.
  \<^item> this theory: the end-to-end refinement, chunking invariance, the reference
    scenarios of the specification at 16 kHz, and what accepting samples after the
    finish does to a reachable engine (the flushed frames are not recomputed).
  Operations with an \<open>assert\<close> return \<open>knf_error + _\<close>; state is passed explicitly
  as the record and returned updated.

  \<^bold>\<open>What the lemma groups show.\<close>  Framing: the loop's closed form equals a reference
  count, counted windows fit the samples seen.  Frame store: lookups on every branch
  (including the evicted-index branch where the code returns the head frame), pop
  clamping.  Window: termination of the mirroring loop, the fast copy equals the
  reflecting copy, DC removal leaves zero mean, in-place pre-emphasis is the backward
  difference, the window's shape.  Filterbank: filters do not depend on the scratch
  array, rates up to 840 Hz fail, 16 kHz builds all 80 filters, the power shortcut is
  exact, silence gives \<open>ln FLT_EPSILON\<close>.  Engine: creation establishes the invariant;
  accept, finish and pop keep it and never abort under the protocol; finish is
  idempotent; get returns the specification's frame; pop keeps every retained frame;
  any protocol-respecting chunking gives the same frames, while a chunk accepted after
  the finish leaves the flushed frames computed from the old stream; the padded size is
  the least power of two above the window for every rate from 40 Hz on and
  \<open>INT_MIN\<close> below (the shift wraps), and \<open>log2_int\<close> is the floor of log2.
  Frame store: a pushed frame is found at the index it receives.  Pointer-level frame
  store: the chain from \<open>root\<close> is unique and acyclic (as \<open>List\<close> in
  \<open>HOL/Hoare/Heap\<close>), updates outside it leave it alone, each pointer operation on a
  heap holding exactly the chain ends, loads no bad pointer and maps to the list
  operation; any run of operations refines the list model's run with allocation failure
  as the only new error; \<open>frames_deinit\<close> frees every frame.  After a pop empties the
  chain \<open>last\<close> dangles, which is harmless because \<open>frames_push\<close> tests \<open>root\<close> first.
  32-bit counters: they agree with the unbounded ones while the stream plus two windows
  stays below \<open>INT_MAX\<close>; past \<open>INT_MAX\<close> the total wraps negative and
  \<open>compute_features\<close> aborts on its assert.
  Benchmark: the run never aborts, each round's pop evicts every frame the round made,
  and at the end 999,999 frames have been produced from \<open>10 * N\<close> samples.

  \<^bold>\<open>Bounds and fuel.\<close>  No fuel is used: every loop is a terminating function except
  the mirroring loop, a \<open>partial_function (option)\<close> proved to return exactly for a
  non-empty buffer, and the pointer walks \<open>pframes_count\<close> and \<open>pframes_deinit\<close>,
  \<open>partial_function (option)\<close>s proved to return on every well-formed store.  The
  16 kHz results rest on bounds for \<open>exp\<close> and \<open>ln\<close>
  (\<open>exp 1 \<le> 3\<close>, \<open>ln x \<le> x - 1\<close>) showing each mel band is wider than one FFT bin.

  \<^bold>\<open>Abstractions and what is not modelled.\<close>  \<open>float\<close> arithmetic is exact \<open>real\<close>
  arithmetic (rounding is not modelled, so equalities hold of the real-valued
  algorithm); \<open>FLT_EPSILON\<close> and FFTW come from outside \<open>src/\<close> and are modelled by
  their definitions.  The frames' memory is modelled in \<open>KNF_FrameHeap\<close>; the engine
  theories use the list model it refines.  The other buffers (the window and filter
  tables with \<open>window_deinit\<close> and \<open>fbank_deinit\<close>, the remainder reallocated by
  \<open>knf_accept_waveform\<close>, the scratch \<open>window_buffer\<close>, the rest of \<open>knf_destroy\<close>)
  are values, not memory, and their allocation failures are not modelled; in
  particular \<open>realloc(p, 0)\<close> may return \<open>NULL\<close> (glibc does), so an empty chunk
  while the remainder is empty makes the C abort on the \<open>assert\<close> of line 426, where
  the model accepts the chunk.  Below 40 Hz the model returns \<open>EmptyMelBin\<close> from the
  filter-bank check, while the C first shifts into a negative padded size (undefined
  behaviour) and aborts on the allocation \<open>assert\<close> of \<open>mel_init\<close>.  The engine
  theories count samples with unbounded integers; \<open>KNF_Framing\<close> and \<open>KNF_Int32\<close>
  show this agrees with 32-bit \<open>int\<close> while the stream plus two windows stays below
  \<open>INT_MAX\<close>, and \<open>KNF_Int32\<close> models the first overflow past it (about
  \<open>2\<^sup>3\<^sup>1\<close> samples), which aborts the engine; what a build with the asserts compiled
  out (\<open>NDEBUG\<close>) would do after that is not modelled.  In
  \<open>src/bench.cpp\<close> the kaldi-native-fbank object \<open>k1\<close> (a library outside the
  repository), \<open>clock_gettime\<close> and \<open>printf\<close> only measure time, and the final
  \<open>knf_destroy\<close> only frees memory; they are not modelled.  The conversion of each
  \<open>drand48\<close> \<open>double\<close> to a \<open>float\<close> sample is exact, like all floating-point arithmetic here,
  so the range \<open>[0, 1)\<close> shown for the samples holds of the doubles; a \<open>float\<close> may round
  up to \<open>1.0f\<close>.
\<close>

text \<open>
  An engine reachable at 16 kHz after any stream and \<open>knf_input_finished\<close>, used by the
  witnesses below.
\<close>

lemma knf_16k_finished_reach:
  "\<exists>s. knf_reach xs s \<and> knf_is_input_finished s \<and> sample_rate s = 16000 \<and>
     window_shift s = 160 \<and> window_size s = 400 \<and> base_index (frames s) = 0 \<and>
     knf_num_frames_ready s = calc_num_frames (int (length xs)) 160 400 True"
proof -
  obtain s0 where s0: "knf_create 16000 80 = Inr s0" "knf_reach [] s0" "knf_inv [] s0"
      "sample_rate s0 = 16000" "window_shift s0 = 160" "window_size s0 = 400" "\<not> input_finished s0"
      "base_index (frames s0) = 0"
    using knf_16k_start by blast
  obtain s1 s2 where s: "knf_accept_waveform s0 (sample_rate s0) xs = Inr s1" "knf_input_finished s1 = Inr s2"
      "knf_inv xs s2" "base_index (frames s2) = base_index (frames s0)" "knf_params s2 = knf_params s0"
      "input_finished s2"
    using knf_accept_finish_steps[OF s0(3) s0(7)] by blast
  have "knf_reach xs s1" using knf_reach.accept[OF s0(2) _ s(1)] s0(7)
    by (simp add: knf_is_input_finished_def)
  then have r: "knf_reach xs s2" using knf_reach.finish s(2) by blast
  have p: "sample_rate s2 = 16000" "window_shift s2 = 160" "window_size s2 = 400"
    using s(5) s0(4-6) by (simp_all add: knf_params_def)
  have rd: "knf_num_frames_ready s2 = calc_num_frames (int (length xs)) 160 400 True"
    using knf_inv_ready[OF s(3)] p s(6) by simp
  have "base_index (frames s2) = 0" using s(4) s0(8) by simp
  then show ?thesis unfolding knf_is_input_finished_def using r s(6) p rd by blast
qed


text \<open>
  C1. Refinement of the streaming engine: from an engine built by \<open>knf_create\<close>
  (with a non-negative rate), any protocol-respecting sequence of calls succeeds;
  the number of frames ready is \<open>calc_num_frames\<close> of the total number of samples
  accepted, and every retained frame \<open>k\<close> is the specification's frame
  \<open>stream_frame\<close> of the whole concatenated stream.
\<close>

theorem knf_streaming_refinement:
  assumes "knf_create sr fd = Inr s" "0 \<le> sr" "knf_calls_ok sr False cs"
  shows "\<exists>s'. knf_run s cs = Inr s' \<and>
     knf_num_frames_ready s' = calc_num_frames (int (length (knf_calls_samples cs)))
        (window_shift s) (window_size s) (knf_calls_finish False cs) \<and>
     (\<forall>k. base_index (frames s') \<le> k \<and> k < knf_num_frames_ready s' \<longrightarrow>
        knf_get_frame s' k = Inr (stream_frame s (knf_calls_samples cs) k))"
proof -
  have i0: "knf_inv [] s" using knf_create_inv[OF assms(1,2)] .
  have "sample_rate s = sr" "\<not> input_finished s" using knf_create_Inr[OF assms(1)] by simp_all
  then obtain s' where s': "knf_run s cs = Inr s'" "knf_inv (knf_calls_samples cs) s'"
    "knf_params s' = knf_params s" "input_finished s' = knf_calls_finish False cs"
    using knf_run_inv[OF i0] assms(3) by fastforce
  have "stream_frame s' = stream_frame s" using s'(3) by (rule stream_frame_params)
  moreover have "window_shift s' = window_shift s" "window_size s' = window_size s"
    using s'(3) by (simp_all add: knf_params_def)
  ultimately show ?thesis using s' knf_get_frame_inv[OF s'(2)]
    by (auto simp: knf_inv_def knf_num_frames_ready_def)
qed

theorem knf_streaming_refinement_witness:
  "\<exists>s s'. knf_create 16000 80 = Inr s \<and>
     knf_run s [AcceptWaveform 16000 (replicate 300 0), AcceptWaveform 16000 (replicate 100 0),
                InputFinished] = Inr s' \<and> knf_num_frames_ready s' = 3"
proof -
  obtain s where s: "knf_create 16000 80 = Inr s" "window_shift s = 160" "window_size s = 400"
    using knf_create_16000 by blast
  obtain s' where "knf_run s [AcceptWaveform 16000 (replicate 300 0), AcceptWaveform 16000 (replicate 100 0),
                InputFinished] = Inr s'"
    "knf_num_frames_ready s' = calc_num_frames 400 160 400 True"
    using knf_streaming_refinement[OF s(1), of "[AcceptWaveform 16000 (replicate 300 0),
       AcceptWaveform 16000 (replicate 100 0), InputFinished]"] s by auto
  moreover have "calc_num_frames 400 160 400 True = 3" by (simp add: calc_num_frames_def)
  ultimately show ?thesis using s by auto
qed

text \<open>
  C2. Chunking invariance: two protocol-respecting call sequences that deliver the
  same samples and agree on whether input was finished leave the same number of
  frames ready, and agree on every frame both still retain.
\<close>

theorem knf_chunking_invariant:
  assumes "knf_create sr fd = Inr s" "0 \<le> sr"
    and "knf_calls_ok sr False cs1" "knf_calls_ok sr False cs2"
    and "knf_calls_samples cs1 = knf_calls_samples cs2"
    and "knf_calls_finish False cs1 = knf_calls_finish False cs2"
    and "knf_run s cs1 = Inr s1" "knf_run s cs2 = Inr s2"
  shows "knf_num_frames_ready s1 = knf_num_frames_ready s2 \<and>
    (\<forall>k. max (base_index (frames s1)) (base_index (frames s2)) \<le> k \<and> k < knf_num_frames_ready s1 \<longrightarrow>
       knf_get_frame s1 k = knf_get_frame s2 k)"
proof -
  have i0: "knf_inv [] s" using knf_create_inv[OF assms(1,2)] .
  have c: "sample_rate s = sr" "\<not> input_finished s" using knf_create_Inr[OF assms(1)] by simp_all
  obtain t1 where t1: "knf_run s cs1 = Inr t1" "knf_inv (knf_calls_samples cs1) t1"
    "knf_params t1 = knf_params s" "input_finished t1 = knf_calls_finish False cs1"
    using knf_run_inv[OF i0] assms(3) c by fastforce
  obtain t2 where t2: "knf_run s cs2 = Inr t2" "knf_inv (knf_calls_samples cs2) t2"
    "knf_params t2 = knf_params s" "input_finished t2 = knf_calls_finish False cs2"
    using knf_run_inv[OF i0] assms(4) c by fastforce
  have s12: "s1 = t1" "s2 = t2" using t1(1) t2(1) assms(7,8) by simp_all
  have sf: "stream_frame t1 = stream_frame s" "stream_frame t2 = stream_frame s"
    using stream_frame_params[OF t1(3)] stream_frame_params[OF t2(3)] by simp_all
  have n: "knf_num_frames_ready t1 = knf_num_frames_ready t2"
    using knf_inv_ready[OF t1(2)] knf_inv_ready[OF t2(2)] t1(3,4) t2(3,4) assms(5,6)
    by (simp add: knf_params_def)
  show ?thesis
  proof (intro conjI allI impI)
    show "knf_num_frames_ready s1 = knf_num_frames_ready s2" using n s12 by simp
    fix k assume k: "max (base_index (frames s1)) (base_index (frames s2)) \<le> k \<and>
      k < knf_num_frames_ready s1"
    have k1: "base_index (frames t1) \<le> k" "k < knf_num_frames_ready t1" using k s12 by auto
    have k2: "base_index (frames t2) \<le> k" "k < knf_num_frames_ready t2" using k s12 n by auto
    have "knf_get_frame t1 k = Inr (stream_frame t1 (knf_calls_samples cs1) k)"
      by (rule knf_get_frame_inv[OF t1(2) k1])
    moreover have "knf_get_frame t2 k = Inr (stream_frame t2 (knf_calls_samples cs2) k)"
      by (rule knf_get_frame_inv[OF t2(2) k2])
    ultimately show "knf_get_frame s1 k = knf_get_frame s2 k" using sf assms(5) s12 by simp
  qed
qed

theorem knf_chunking_invariant_witness:
  "\<exists>s s1 s2. knf_create 16000 80 = Inr s \<and>
     knf_run s [AcceptWaveform 16000 (replicate 500 0)] = Inr s1 \<and>
     knf_run s [AcceptWaveform 16000 (replicate 200 0), AcceptWaveform 16000 (replicate 300 0)] = Inr s2 \<and>
     knf_num_frames_ready s1 = knf_num_frames_ready s2"
proof -
  obtain s where s: "knf_create 16000 80 = Inr s" "sample_rate s = 16000"
    using knf_create_16000 by blast
  have i0: "knf_inv [] s" using knf_create_inv[OF s(1)] by simp
  obtain s1 where s1: "knf_run s [AcceptWaveform 16000 (replicate 500 0)] = Inr s1"
    using knf_run_inv[OF i0, of "[AcceptWaveform 16000 (replicate 500 0)]"] s
      knf_create_Inr[OF s(1)] by auto
  obtain s2 where s2: "knf_run s [AcceptWaveform 16000 (replicate 200 0),
      AcceptWaveform 16000 (replicate 300 0)] = Inr s2"
    using knf_run_inv[OF i0, of "[AcceptWaveform 16000 (replicate 200 0),
      AcceptWaveform 16000 (replicate 300 0)]"] s knf_create_Inr[OF s(1)] by auto
  have "knf_num_frames_ready s1 = knf_num_frames_ready s2"
    using knf_chunking_invariant[OF s(1) _ _ _ _ _ s1 s2] by (simp add: replicate_add[symmetric])
  then show ?thesis using s s1 s2 by blast
qed

text \<open>
  C14. The reference scenario: at 16 kHz, one second of silence
  (16000 zero samples) followed by \<open>knf_input_finished\<close> yields 100 frames, one per 10 ms,
  and every feature of every frame is \<open>ln FLT_EPSILON\<close>.
\<close>

theorem knf_16k_silence_scenario:
  "\<exists>s s1 s2. knf_create 16000 80 = Inr s \<and>
     knf_accept_waveform s 16000 (replicate 16000 0) = Inr s1 \<and> knf_input_finished s1 = Inr s2 \<and>
     knf_num_frames_ready s2 = 100 \<and>
     (\<forall>k. 0 \<le> k \<and> k < 100 \<longrightarrow> knf_get_frame s2 k = Inr (replicate 80 (ln FLT_EPSILON)))"
proof -
  obtain s s1 s2 where s: "knf_create 16000 80 = Inr s"
      "knf_accept_waveform s 16000 (replicate 16000 0) = Inr s1" "knf_input_finished s1 = Inr s2"
      "knf_inv (replicate 16000 0) s2" "base_index (frames s2) = 0" "fbank_wf (fbank s2)"
      "length (bins (fbank s2)) = 80" "window_shift s2 = 160" "window_size s2 = 400" "input_finished s2"
    using knf_16k_accept_finish[of "replicate 16000 0"] by blast
  have n: "knf_num_frames_ready s2 = 100"
    using knf_inv_ready[OF s(4)] s(8-10) by (simp add: calc_num_frames_flush)
  have "knf_get_frame s2 k = Inr (replicate 80 (ln FLT_EPSILON))" if "0 \<le> k" "k < 100" for k
  proof -
    have "knf_get_frame s2 k = Inr (stream_frame s2 (replicate 16000 0) k)"
      using knf_get_frame_inv[OF s(4)] that n s(5) by simp
    also have "\<dots> = Inr (replicate 80 (ln FLT_EPSILON))"
      using stream_frame_silence[OF s(6), of "replicate 16000 0" k] s(7) by simp
    finally show ?thesis .
  qed
  then show ?thesis using s n by blast
qed

theorem knf_16k_silence_scenario_witness:
  "\<exists>s s1 s2. knf_create 16000 80 = Inr s \<and>
     knf_accept_waveform s 16000 (replicate 16000 0) = Inr s1 \<and> knf_input_finished s1 = Inr s2 \<and>
     knf_get_frame s2 99 = Inr (replicate 80 (ln FLT_EPSILON))"
  using knf_16k_silence_scenario by fastforce

text \<open>
  C15. Input shorter than one window does not always give exactly
  one frame after \<open>knf_input_finished\<close>: at 16 kHz (window 400, shift 160) 300 samples
  give two frames, and 50 samples give none, since the flushing count is
  \<open>(n + 80) div 160\<close>.
\<close>

theorem knf_16k_short_input_frames:
  "\<exists>s s1 s2 t1 t2. knf_create 16000 80 = Inr s \<and>
     knf_accept_waveform s 16000 (replicate 300 0) = Inr s1 \<and> knf_input_finished s1 = Inr s2 \<and>
     knf_num_frames_ready s2 = 2 \<and>
     knf_accept_waveform s 16000 (replicate 50 0) = Inr t1 \<and> knf_input_finished t1 = Inr t2 \<and>
     knf_num_frames_ready t2 = 0"
proof -
  obtain s s1 s2 where a: "knf_create 16000 80 = Inr s"
      "knf_accept_waveform s 16000 (replicate 300 0) = Inr s1" "knf_input_finished s1 = Inr s2"
      "knf_inv (replicate 300 0) s2" "window_shift s2 = 160" "window_size s2 = 400" "input_finished s2"
    using knf_16k_accept_finish[of "replicate 300 0"] by blast
  obtain s' t1 t2 where b: "knf_create 16000 80 = Inr s'"
      "knf_accept_waveform s' 16000 (replicate 50 0) = Inr t1" "knf_input_finished t1 = Inr t2"
      "knf_inv (replicate 50 0) t2" "window_shift t2 = 160" "window_size t2 = 400" "input_finished t2"
    using knf_16k_accept_finish[of "replicate 50 0"] by blast
  have "s' = s" using a(1) b(1) by simp
  moreover have "knf_num_frames_ready s2 = 2"
    using knf_inv_ready[OF a(4)] a(5-7) by (simp add: calc_num_frames_flush)
  moreover have "knf_num_frames_ready t2 = 0"
    using knf_inv_ready[OF b(4)] b(5-7) by (simp add: calc_num_frames_flush)
  ultimately show ?thesis using a b by blast
qed

text \<open>
  C16. Accepting samples after \<open>knf_input_finished\<close> is not rejected, and the frames
  already flushed are not recomputed: for every engine reachable through the protocol
  whose input is finished, a non-empty chunk is accepted, the engine then counts the
  frames of the extended stream as flushed, and every retained frame is still the
  specification's frame of the old stream, its window mirrored at the old end.  At
  16 kHz, after 400 silent samples, frame 2 keeps the mirrored zeros where delivering the
  same samples in one chunk before finishing would put the new samples.
\<close>

theorem knf_accept_after_finish_keeps_flushed:
  assumes "knf_reach xs s" and "knf_is_input_finished s" and "ys \<noteq> []"
  shows "\<exists>s'. knf_accept_waveform s (sample_rate s) ys = Inr s' \<and>
     knf_num_frames_ready s' =
       calc_num_frames (int (length (xs @ ys))) (window_shift s) (window_size s) True \<and>
     (\<forall>k. base_index (frames s) \<le> k \<and> k < knf_num_frames_ready s \<longrightarrow>
        knf_get_frame s' k = Inr (stream_frame s xs k))"
proof -
  have inv: "knf_inv xs s" using assms(1) by (rule knf_reach_inv)
  have fin: "input_finished s" using assms(2) by (simp add: knf_is_input_finished_def)
  obtain s' fs where s': "knf_accept_waveform s (sample_rate s) ys = Inr s'"
      "frames s' = (frames s)\<lparr>root := root (frames s) @ fs\<rparr>"
      "knf_num_frames_ready s' = calc_num_frames (int (length (xs @ ys))) (window_shift s) (window_size s) True"
    using knf_accept_after_finish[OF inv fin refl assms(3)] by blast
  have "knf_get_frame s' k = Inr (stream_frame s xs k)"
    if k: "base_index (frames s) \<le> k" "k < knf_num_frames_ready s" for k
  proof -
    have "knf_get_frame s' k = frames_get (frames s) k"
      using frames_get_append[of "frames s" k fs] k s'(2)
      by (simp add: knf_get_frame_def knf_num_frames_ready_def)
    also have "\<dots> = Inr (stream_frame s xs k)"
      using knf_get_frame_inv[OF inv k] by (simp add: knf_get_frame_def)
    finally show ?thesis .
  qed
  then show ?thesis using s' by blast
qed

theorem knf_accept_after_finish_keeps_flushed_witness:
  "\<exists>s s'. knf_reach (replicate 400 0) s \<and> knf_is_input_finished s \<and>
     knf_accept_waveform s 16000 (replicate 200 1) = Inr s' \<and>
     knf_get_frame s' 2 = Inr (stream_frame s (replicate 400 0) 2) \<and>
     stream_window s (replicate 400 0) 2 ! 200 = 0 \<and>
     stream_window s (replicate 400 0 @ replicate 200 1) 2 ! 200 = 1"
proof -
  obtain s where s: "knf_reach (replicate 400 0) s" "knf_is_input_finished s" "sample_rate s = 16000"
      "window_shift s = 160" "window_size s = 400" "base_index (frames s) = 0"
      "knf_num_frames_ready s = calc_num_frames 400 160 400 True"
    using knf_16k_finished_reach[of "replicate 400 0"] by auto
  have r: "knf_num_frames_ready s = 3" using s(7) by (simp add: calc_num_frames_flush)
  obtain s' where s': "knf_accept_waveform s 16000 (replicate 200 1) = Inr s'"
      "knf_get_frame s' 2 = Inr (stream_frame s (replicate 400 0) 2)"
    using knf_accept_after_finish_keeps_flushed[OF s(1,2), of "replicate 200 1"] s(3,6) r by auto
  have c: "calc_first_sample 2 160 400 = 200" by (simp add: calc_first_sample_def)
  have r1: "reflect_index 400 400 = Some 399" by (simp add: reflect_index.simps)
  have r2: "reflect_index 600 400 = Some 400" by (simp add: reflect_index.simps)
  have "stream_window s (replicate 400 0) 2 ! 200 = 0"
    using c r1 s(4,5) by (simp add: stream_window_def)
  moreover have "stream_window s (replicate 400 0 @ replicate 200 1) 2 ! 200 = 1"
    using c r2 s(4,5) by (simp add: stream_window_def nth_append)
  ultimately show ?thesis using s s' by blast
qed

end
